theory Spec2Isabelle
  imports Complex_Main "HOL-Library.Multiset" "HOL-Library.Sublist" "HOL-Library.Log_Nat"
begin

section \<open>Data model\<close>

text \<open>
  The program is a pandas pipeline over one table of bank transactions
  (\<^verbatim>\<open>recurring_payments.ipynb\<close>, final cell).  A line of the table is a record; the table
  is the list of its lines together with the names of the columns that exist, because the
  pipeline creates columns on the way and reading a column that was never created raises
  \<^verbatim>\<open>KeyError\<close>.

  \<^item> \<open>made_on\<close> is the calendar day of the transaction as a day number, so that the
    difference of two dates is the \<^verbatim>\<open>.dt.days\<close> of their timedelta.
  \<^item> \<open>label\<close> is the index label of the line (the \<^verbatim>\<open>RangeIndex\<close> of the table read from
    the file: position in the input).
  \<^item> A cell of a column created by \<^verbatim>\<open>df.loc[...] = ...\<close> that was never assigned holds
    \<^verbatim>\<open>NaT\<close>/\<^verbatim>\<open>NaN\<close>: the value \<open>None\<close>.
  \<^item> A floating-point number is the rational number it stands for, or \<open>None\<close> for
    \<^verbatim>\<open>NaN\<close>; every operation on floats rounds its exact result to the nearest double
    (section \<open>Double-precision numbers\<close>).
  \<^item> A string is a list of 8-bit characters, the code points up to U+00FF; the character
    classes of the text functions are those of Python on these code points.
\<close>

datatype error = KeyError string | IndexError | TypeError

record transaction =
  made_on :: int
  original_description :: string
  amount_cents :: int
  income :: bool

record row = transaction +
  label :: nat
  type_col :: string
  clean_desc :: string
  keyword :: string
  daydelta :: "int option"
  daydelta_int :: "int option"
  recurring :: "bool option"

record dataframe =
  rows :: "row list"
  columns :: "string list"

type_synonym float = "rat option"

section \<open>Double-precision numbers\<close>

text \<open>
  The numbers of the program are numpy \<^verbatim>\<open>float64\<close> values.  A finite double is a rational
  \<open>m * 2\<^sup>e\<close> with an integer \<open>m\<close> of at most 53 bits, and every arithmetic operation returns the
  exact result rounded to the nearest double, a tie going to the even significand.  The
  exponent range of the format is not modelled: the day counts and amounts of the program
  are far inside it.

  \<open>round_half_even\<close> is rounding to the nearest integer, a half to the even neighbour
  (it is also what \<^verbatim>\<open>.round(0)\<close> does on a numpy float); \<open>ilog2 x\<close> is the exponent of the
  leading bit of a positive \<open>x\<close>.
\<close>

definition round_half_even :: "rat \<Rightarrow> int" where
  "round_half_even x =
     (let f = \<lfloor>x\<rfloor>; d = x - of_int f
      in if d < 1 / 2 then f else if 1 / 2 < d then f + 1 else if even f then f else f + 1)"

definition ilog2 :: "rat \<Rightarrow> int" where
  "ilog2 x =
     (let d = bitlen (fst (quotient_of x)) - bitlen (snd (quotient_of x))
      in if 2 powi d \<le> x then d else d - 1)"

definition float64 :: "rat \<Rightarrow> rat" where
  "float64 x =
     (if x = 0 then 0
      else let e = ilog2 \<bar>x\<bar> - 52 in of_int (round_half_even (x / 2 powi e)) * 2 powi e)"

text \<open>
  Sum, difference, product and quotient of two floats; an operation on \<^verbatim>\<open>NaN\<close> is \<^verbatim>\<open>NaN\<close>.
  The divisions of the program are by the positive number of values of a mean.
\<close>

definition fop :: "(rat \<Rightarrow> rat \<Rightarrow> rat) \<Rightarrow> float \<Rightarrow> float \<Rightarrow> float" where
  "fop f a b =
     (case a of None \<Rightarrow> None | Some x \<Rightarrow> (case b of None \<Rightarrow> None | Some y \<Rightarrow> Some (float64 (f x y))))"

definition fadd :: "float \<Rightarrow> float \<Rightarrow> float" where
  "fadd = fop (\<lambda>x y. x + y)"

definition fsub :: "float \<Rightarrow> float \<Rightarrow> float" where
  "fsub = fop (\<lambda>x y. x - y)"

definition fmul :: "float \<Rightarrow> float \<Rightarrow> float" where
  "fmul = fop (\<lambda>x y. x * y)"

definition fdiv :: "float \<Rightarrow> float \<Rightarrow> float" where
  "fdiv = fop (\<lambda>x y. x / y)"

text \<open>Comparison: every comparison with \<^verbatim>\<open>NaN\<close> is false.\<close>

definition fle :: "float \<Rightarrow> float \<Rightarrow> bool" where
  "fle a b = (case a of None \<Rightarrow> False | Some x \<Rightarrow> (case b of None \<Rightarrow> False | Some y \<Rightarrow> x \<le> y))"

text \<open>
  The float of an integer, and the cell of a column of day counts, which pandas holds as
  floats because of its missing values.
\<close>

definition float_of_int :: "int \<Rightarrow> float" where
  "float_of_int k = Some (float64 (of_int k))"

definition to_float :: "int option \<Rightarrow> float" where
  "to_float x = (case x of None \<Rightarrow> None | Some k \<Rightarrow> float_of_int k)"

section \<open>Series operations\<close>

text \<open>\<^verbatim>\<open>series[-3:]\<close>: the last three entries, or all of them when there are fewer.\<close>

definition tail3 :: "'a list \<Rightarrow> 'a list" where
  "tail3 xs = drop (length xs - 3) xs"

fun dropna :: "'a option list \<Rightarrow> 'a list" where
  "dropna [] = []"
| "dropna (None # xs) = dropna xs"
| "dropna (Some x # xs) = x # dropna xs"

text \<open>The exact average of a list of integers, as a rational number.\<close>

definition average :: "int list \<Rightarrow> rat" where
  "average vs = of_int (sum_list vs) / of_nat (length vs)"

text \<open>
  \<^verbatim>\<open>Series.mean()\<close> skips missing values (\<^verbatim>\<open>skipna=True\<close>) and is \<^verbatim>\<open>NaN\<close> when no value
  is left; otherwise it is the sum of the values, accumulated in doubles, divided by their
  number.  The sum is accumulated from the first value to the last; numpy adds long
  columns in blocks, which gives the same sum as long as no addition rounds.
\<close>

definition fsum :: "rat list \<Rightarrow> rat" where
  "fsum vs = foldl (\<lambda>s v. float64 (s + v)) 0 vs"

definition mean :: "float list \<Rightarrow> float" where
  "mean xs =
     (let vs = dropna xs
      in if vs = [] then None else Some (float64 (fsum vs / of_nat (length vs))))"
section \<open>Recurrence classifier\<close>

text \<open>
  \<^verbatim>\<open>
  def is_recurring(df, tolerance):
      recent_trans = df['daydelta_int'][-3:]
      avg_amount = recent_trans.mean()
      lower_bound = avg_amount*(1-tolerance)
      upper_bound = avg_amount*(1+tolerance)
      output = all(lower_bound <= x <= upper_bound for x in recent_trans)
      return output
  \<close>
  The tolerance is a float: the literal \<^verbatim>\<open>0.2\<close> of the caller is the double nearest to
  one fifth.
\<close>

definition is_recurring :: "row list \<Rightarrow> rat \<Rightarrow> bool" where
  "is_recurring df tolerance =
     (let recent_trans = tail3 (map (to_float \<circ> daydelta_int) df);
          avg_amount = mean recent_trans;
          lower_bound = fmul avg_amount (fsub (Some 1) (Some tolerance));
          upper_bound = fmul avg_amount (fadd (Some 1) (Some tolerance))
      in list_all (\<lambda>x. fle lower_bound x \<and> fle x upper_bound) recent_trans)"

definition default_tolerance :: rat where
  "default_tolerance = float64 (1 / 5)"

text \<open>
  The tolerance band of the specification, in exact arithmetic: every value of \<open>D\<close> lies,
  bounds included, between \<open>mean(D) * (1 - t)\<close> and \<open>mean(D) * (1 + t)\<close>.
\<close>

definition in_band :: "rat \<Rightarrow> int list \<Rightarrow> bool" where
  "in_band t D = list_all (\<lambda>d. average D * (1 - t) \<le> of_int d \<and> of_int d \<le> average D * (1 + t)) D"

text \<open>
  The classifier in the words of the specification, over the defined deltas \<open>ds\<close> of a group
  of \<open>n = length ds + 1\<close> transactions: \<open>D\<close> is the last \<open>min(3, n - 1)\<close> of them; an empty \<open>D\<close>
  is not recurring, otherwise the group is recurring iff \<open>D\<close> is within the band.
\<close>

definition classify_spec :: "int list \<Rightarrow> rat \<Rightarrow> bool" where
  "classify_spec ds t =
     (let D = drop (length ds - min 3 (length ds)) ds in D \<noteq> [] \<and> in_band t D)"

text \<open>
  The band as the program computes it: the mean and the two bounds are doubles, each
  operation rounded.
\<close>

definition in_band64 :: "rat \<Rightarrow> int list \<Rightarrow> bool" where
  "in_band64 t D =
     (let m = float64 (average D);
          lower_bound = float64 (m * float64 (1 - t));
          upper_bound = float64 (m * float64 (1 + t))
      in list_all (\<lambda>d. lower_bound \<le> of_int d \<and> of_int d \<le> upper_bound) D)"
section \<open>Sorting and grouping\<close>

text \<open>
  \<^verbatim>\<open>DataFrame.sort_values(by)\<close> sorts with the algorithm named by its argument \<^verbatim>\<open>kind\<close>.
  The program never passes \<^verbatim>\<open>kind\<close>, so the library's default (\<^verbatim>\<open>'quicksort'\<close>) is
  used; the library documents that only \<^verbatim>\<open>'mergesort'\<close> and \<^verbatim>\<open>'stable'\<close> are stable.  The
  algorithm is library code and is a parameter of the model.
\<close>

type_synonym sorter = "(row \<Rightarrow> int) \<Rightarrow> row list \<Rightarrow> row list"

definition sort_values :: "sorter \<Rightarrow> (row \<Rightarrow> int) \<Rightarrow> row list \<Rightarrow> row list" where
  "sort_values kind by df = kind by df"

text \<open>What the library promises of every \<^verbatim>\<open>kind\<close>: the result is the input, rearranged in ascending order of the key.\<close>

definition sorting_algorithm :: "sorter \<Rightarrow> bool" where
  "sorting_algorithm kind \<longleftrightarrow>
     (\<forall>by df. sorted (map by (kind by df)) \<and> mset (kind by df) = mset df)"

text \<open>
  Insertion sort, as \<open>sort_key\<close> of the list library, keeps the library's promise; it is
  the algorithm of the worked examples.
\<close>

definition insertion_sort :: sorter where
  "insertion_sort by df = sort_key by df"

text \<open>\<^verbatim>\<open>Series.unique()\<close>: the distinct values in order of first appearance.\<close>

fun unique_acc :: "'a list \<Rightarrow> 'a list \<Rightarrow> 'a list" where
  "unique_acc seen [] = []"
| "unique_acc seen (x # xs) =
     (if x \<in> set seen then unique_acc seen xs else x # unique_acc (x # seen) xs)"

definition unique :: "'a list \<Rightarrow> 'a list" where
  "unique xs = unique_acc [] xs"

text \<open>
  \<^verbatim>\<open>
  def get_subdf(df, keyword):
      sub_df = df[df['keyword'] == keyword]
      sub_df = sub_df.sort_values('made_on')
      return sub_df
  \<close>
\<close>

definition get_subdf :: "sorter \<Rightarrow> dataframe \<Rightarrow> string \<Rightarrow> row list" where
  "get_subdf kind df kw =
     (let sub_df = filter (\<lambda>r. keyword r = kw) (rows df)
      in sort_values kind made_on sub_df)"

text \<open>The groups of a table: one per distinct keyword, in order of first appearance.\<close>

definition groups :: "sorter \<Rightarrow> dataframe \<Rightarrow> row list list" where
  "groups kind df = map (get_subdf kind df) (unique (map keyword (rows df)))"
section \<open>Description cleaning\<close>

text \<open>
  \<^verbatim>\<open>
  date_pattern = r'\b(\d{2}|JAN|FEB|MAR|APR|MAY|JUN|JUL|AUG|SEP|OCT|NOV|DEC|ON|BCC|CLP|ATM|CH|FT|BGC|DDR|\')\b'
  df['clean_desc'] = df['original_description'].str.replace(date_pattern, '')
  \<close>
  The notebook runs on Python 3.7, whose pandas treats the first argument of
  \<^verbatim>\<open>str.replace\<close> as a regular expression by default.  The expression is a group of
  alternatives between two word boundaries.  On text (\<^verbatim>\<open>str\<close>) the classes are those of
  Unicode: \<^verbatim>\<open>\d\<close> is a decimal digit, of which the code points up to U+00FF have the ten
  ASCII ones, and \<^verbatim>\<open>\w\<close> is an alphanumeric character or the underscore, which besides
  the ASCII ones are the letters, superscript digits and fractions of \<open>latin1_word\<close>.
\<close>

definition digit :: "char \<Rightarrow> bool" where
  "digit c \<longleftrightarrow> c \<in> set ''0123456789''"

definition latin1_word :: string where
  "latin1_word =
     [CHR 0xAA, CHR 0xB2, CHR 0xB3, CHR 0xB5, CHR 0xB9, CHR 0xBA, CHR 0xBC, CHR 0xBD,
      CHR 0xBE, CHR 0xC0, CHR 0xC1, CHR 0xC2, CHR 0xC3, CHR 0xC4, CHR 0xC5, CHR 0xC6,
      CHR 0xC7, CHR 0xC8, CHR 0xC9, CHR 0xCA, CHR 0xCB, CHR 0xCC, CHR 0xCD, CHR 0xCE,
      CHR 0xCF, CHR 0xD0, CHR 0xD1, CHR 0xD2, CHR 0xD3, CHR 0xD4, CHR 0xD5, CHR 0xD6,
      CHR 0xD8, CHR 0xD9, CHR 0xDA, CHR 0xDB, CHR 0xDC, CHR 0xDD, CHR 0xDE, CHR 0xDF,
      CHR 0xE0, CHR 0xE1, CHR 0xE2, CHR 0xE3, CHR 0xE4, CHR 0xE5, CHR 0xE6, CHR 0xE7,
      CHR 0xE8, CHR 0xE9, CHR 0xEA, CHR 0xEB, CHR 0xEC, CHR 0xED, CHR 0xEE, CHR 0xEF,
      CHR 0xF0, CHR 0xF1, CHR 0xF2, CHR 0xF3, CHR 0xF4, CHR 0xF5, CHR 0xF6, CHR 0xF8,
      CHR 0xF9, CHR 0xFA, CHR 0xFB, CHR 0xFC, CHR 0xFD, CHR 0xFE, CHR 0xFF]"

definition word_char :: "char \<Rightarrow> bool" where
  "word_char c \<longleftrightarrow>
     c \<in> set ''abcdefghijklmnopqrstuvwxyzABCDEFGHIJKLMNOPQRSTUVWXYZ0123456789_''
     \<or> c \<in> set latin1_word"

text \<open>
  \<^verbatim>\<open>\b\<close> holds between two neighbouring positions when exactly one of them holds a word
  character; beyond either end of the text there is no character (\<open>None\<close>).
\<close>

definition is_word :: "char option \<Rightarrow> bool" where
  "is_word x = (case x of None \<Rightarrow> False | Some c \<Rightarrow> word_char c)"

definition word_boundary :: "char option \<Rightarrow> char option \<Rightarrow> bool" where
  "word_boundary left right \<longleftrightarrow> is_word left \<noteq> is_word right"

datatype alternative = Digits2 | Literal string

definition apostrophe :: char where
  "apostrophe = CHR 0x27"

definition codes :: "string list" where
  "codes =
     [''JAN'', ''FEB'', ''MAR'', ''APR'', ''MAY'', ''JUN'', ''JUL'', ''AUG'', ''SEP'', ''OCT'',
      ''NOV'', ''DEC'', ''ON'', ''BCC'', ''CLP'', ''ATM'', ''CH'', ''FT'', ''BGC'', ''DDR'']"

definition date_pattern :: "alternative list" where
  "date_pattern = Digits2 # map Literal codes @ [Literal [apostrophe]]"

text \<open>The number of characters one alternative matches at the start of the text, if it matches.\<close>

fun alt_match :: "alternative \<Rightarrow> string \<Rightarrow> nat option" where
  "alt_match Digits2 (a # b # s) = (if digit a \<and> digit b then Some 2 else None)"
| "alt_match Digits2 s = None"
| "alt_match (Literal w) s = (if prefix w s then Some (length w) else None)"

definition next_char :: "string \<Rightarrow> char option" where
  "next_char s = (case s of [] \<Rightarrow> None | c # _ \<Rightarrow> Some c)"

text \<open>One alternative followed by \<^verbatim>\<open>\b\<close>: the boundary lies behind the last matched character.\<close>

definition alt_then_boundary :: "alternative \<Rightarrow> string \<Rightarrow> nat option" where
  "alt_then_boundary a s =
     (case alt_match a s of
        None \<Rightarrow> None
      | Some n \<Rightarrow>
          if word_boundary (Some (last (take n s))) (next_char (drop n s)) then Some n else None)"

text \<open>
  The group followed by \<^verbatim>\<open>\b\<close>: the alternatives are tried in order, and one whose match
  is not followed by a word boundary is given up for the next.
\<close>

fun group_match :: "alternative list \<Rightarrow> string \<Rightarrow> nat option" where
  "group_match [] s = None"
| "group_match (a # as) s =
     (case alt_then_boundary a s of None \<Rightarrow> group_match as s | Some n \<Rightarrow> Some n)"

text \<open>The whole expression at one position: \<open>left\<close> is the character in front of it.\<close>

definition match_here :: "char option \<Rightarrow> string \<Rightarrow> nat option" where
  "match_here left s =
     (if word_boundary left (next_char s) then group_match date_pattern s else None)"

text \<open>
  \<^verbatim>\<open>re.sub(date_pattern, '', s)\<close>: the text is scanned from the left; a match is dropped and
  the scan goes on behind it, otherwise one character is kept.  No alternative matches
  the empty text, so a match is at least one character long.
\<close>

fun sub_date_pattern :: "char option \<Rightarrow> string \<Rightarrow> string" where
  "sub_date_pattern left [] = []"
| "sub_date_pattern left (c # cs) =
     (case match_here left (c # cs) of
        None \<Rightarrow> c # sub_date_pattern (Some c) cs
      | Some n \<Rightarrow> sub_date_pattern (Some (last (take n (c # cs)))) (drop (n - 1) cs))"

text \<open>
  \<^verbatim>\<open>str.replace(r'\*|\.|\,', ' ', regex=True)\<close> and \<^verbatim>\<open>str.lower()\<close>, which maps the
  capital letters, those with accents included, to their small letters.
\<close>

definition punctuation_to_space :: "char \<Rightarrow> char" where
  "punctuation_to_space c = (if c \<in> set ''*.,'' then CHR '' '' else c)"

definition latin1_upper :: string where
  "latin1_upper =
     [CHR 0xC0, CHR 0xC1, CHR 0xC2, CHR 0xC3, CHR 0xC4, CHR 0xC5, CHR 0xC6, CHR 0xC7,
      CHR 0xC8, CHR 0xC9, CHR 0xCA, CHR 0xCB, CHR 0xCC, CHR 0xCD, CHR 0xCE, CHR 0xCF,
      CHR 0xD0, CHR 0xD1, CHR 0xD2, CHR 0xD3, CHR 0xD4, CHR 0xD5, CHR 0xD6, CHR 0xD8,
      CHR 0xD9, CHR 0xDA, CHR 0xDB, CHR 0xDC, CHR 0xDD, CHR 0xDE]"

definition latin1_lower :: string where
  "latin1_lower =
     [CHR 0xE0, CHR 0xE1, CHR 0xE2, CHR 0xE3, CHR 0xE4, CHR 0xE5, CHR 0xE6, CHR 0xE7,
      CHR 0xE8, CHR 0xE9, CHR 0xEA, CHR 0xEB, CHR 0xEC, CHR 0xED, CHR 0xEE, CHR 0xEF,
      CHR 0xF0, CHR 0xF1, CHR 0xF2, CHR 0xF3, CHR 0xF4, CHR 0xF5, CHR 0xF6, CHR 0xF8,
      CHR 0xF9, CHR 0xFA, CHR 0xFB, CHR 0xFC, CHR 0xFD, CHR 0xFE]"

definition lower_char :: "char \<Rightarrow> char" where
  "lower_char c =
     (case map_of (zip (''ABCDEFGHIJKLMNOPQRSTUVWXYZ'' @ latin1_upper)
                       (''abcdefghijklmnopqrstuvwxyz'' @ latin1_lower)) c of
        None \<Rightarrow> c | Some l \<Rightarrow> l)"

definition clean_text :: "string \<Rightarrow> string" where
  "clean_text s = map lower_char (map punctuation_to_space (sub_date_pattern None s))"

text \<open>
  The noise vocabulary in the words of the specification: any two-digit number, the month
  abbreviations and the transaction codes.
\<close>

definition noise_word :: "string \<Rightarrow> bool" where
  "noise_word w \<longleftrightarrow> (length w = 2 \<and> (\<forall>c \<in> set w. digit c)) \<or> w \<in> set codes"

text \<open>\<^verbatim>\<open>x.split(' ', 1)\<close>: at most one split, at the first space.\<close>

definition split1 :: "string \<Rightarrow> string list" where
  "split1 x =
     (if CHR '' '' \<in> set x
      then [takeWhile (\<lambda>c. c \<noteq> CHR '' '') x, tl (dropWhile (\<lambda>c. c \<noteq> CHR '' '') x)]
      else [x])"

text \<open>\<^verbatim>\<open>xs[0]\<close> and \<^verbatim>\<open>.iloc[0]\<close> raise \<^verbatim>\<open>IndexError\<close> when there is no first element.\<close>

definition item0 :: "'a list \<Rightarrow> error + 'a" where
  "item0 xs = (case xs of [] \<Rightarrow> Inl IndexError | x # _ \<Rightarrow> Inr x)"

text \<open>A column computed line by line stops at the first error.\<close>

fun map_rows :: "('a \<Rightarrow> error + 'b) \<Rightarrow> 'a list \<Rightarrow> error + 'b list" where
  "map_rows f [] = Inr []"
| "map_rows f (x # xs) =
     (case f x of
        Inl e \<Rightarrow> Inl e
      | Inr y \<Rightarrow> (case map_rows f xs of Inl e \<Rightarrow> Inl e | Inr ys \<Rightarrow> Inr (y # ys)))"

definition add_column :: "string \<Rightarrow> string list \<Rightarrow> string list" where
  "add_column c cs = (if c \<in> set cs then cs else cs @ [c])"

text \<open>
  \<^verbatim>\<open>
  def clean_dataframe(df):
      df['made_on'] = pd.to_datetime(df['made_on'])
      df = df.drop(df.columns[:2], axis = 1)
      df['type'] = df['income'].map(lambda x: 'credit' if x == True else 'debit')
      return df
  \<close>
  The table that comes in is the list of transactions; the two dropped columns carry no
  data of the model.
\<close>

definition new_row :: "nat \<times> transaction \<Rightarrow> row" where
  "new_row it =
     \<lparr>made_on = made_on (snd it), original_description = original_description (snd it),
      amount_cents = amount_cents (snd it), income = income (snd it),
      label = fst it, type_col = (if income (snd it) then ''credit'' else ''debit''),
      clean_desc = [], keyword = [], daydelta = None, daydelta_int = None, recurring = None\<rparr>"

definition clean_dataframe :: "transaction list \<Rightarrow> dataframe" where
  "clean_dataframe txns =
     \<lparr>rows = map new_row (enumerate 0 txns),
      columns = [''made_on'', ''original_description'', ''amount_cents'', ''income'', ''type'']\<rparr>"

text \<open>
  \<^verbatim>\<open>
  def clean_description(df):
      ...
      df['clean_desc'] = df['original_description'].str.replace(date_pattern, '')
      df['clean_desc'] = df['clean_desc'].str.replace(r'\*|\.|\,',' ', regex = True)
      df['clean_desc'] = df['clean_desc'].str.lower()
      df['keyword'] = df['clean_desc'].map(lambda x: x.split(' ', 1)[0]) + ' ' + df['type']
      return df
  \<close>
\<close>

definition first_word :: "string \<Rightarrow> error + string" where
  "first_word x = item0 (split1 x)"

definition describe_row :: "row \<Rightarrow> error + row" where
  "describe_row r =
     (let cd = clean_text (original_description r)
      in case first_word cd of
           Inl e \<Rightarrow> Inl e
         | Inr w \<Rightarrow> Inr (r\<lparr>clean_desc := cd, keyword := w @ '' '' @ type_col r\<rparr>))"

definition clean_description :: "dataframe \<Rightarrow> error + dataframe" where
  "clean_description df =
     (case map_rows describe_row (rows df) of
        Inl e \<Rightarrow> Inl e
      | Inr rs \<Rightarrow>
          Inr \<lparr>rows = rs, columns = add_column ''keyword'' (add_column ''clean_desc'' (columns df))\<rparr>)"

section \<open>Interval calculator\<close>

text \<open>
  \<^verbatim>\<open>
  def daydelta(df, date_col):
      process_df = df.sort_values(date_col)
      process_df['daydelta'] = process_df[date_col] - process_df[date_col].shift()
      return process_df
  \<close>
  \<^verbatim>\<open>shift()\<close> moves the column down by one line, so the first difference is \<^verbatim>\<open>NaT\<close>.
\<close>

fun shift_diff :: "int list \<Rightarrow> int option list" where
  "shift_diff [] = []"
| "shift_diff (d # ds) = None # map (\<lambda>(prev, cur). Some (cur - prev)) (zip (d # ds) ds)"

definition daydelta_of :: "sorter \<Rightarrow> row list \<Rightarrow> row list" where
  "daydelta_of kind df =
     (let process_df = sort_values kind made_on df
      in map (\<lambda>(r, dd). r\<lparr>daydelta := dd\<rparr>) (zip process_df (shift_diff (map made_on process_df))))"

text \<open>
  \<^verbatim>\<open>df.loc[index, 'daydelta'] = value\<close> writes one cell, and creates the column, empty
  elsewhere, when the table has none of that name.
\<close>

definition loc_set_daydelta :: "dataframe \<Rightarrow> nat \<Rightarrow> int option \<Rightarrow> dataframe" where
  "loc_set_daydelta df index v =
     \<lparr>rows = map (\<lambda>r. if label r = index then r\<lparr>daydelta := v\<rparr> else r) (rows df),
      columns = add_column ''daydelta'' (columns df)\<rparr>"

text \<open>
  \<^verbatim>\<open>
  def calculate_daydelta(df):
      for i in df['keyword'].unique():
          sub_df = get_subdf(df, i)
          sub_df = daydelta(sub_df, 'made_on')
          for index, row in sub_df.iterrows():
              df.loc[index, 'daydelta'] = sub_df.loc[index, 'daydelta']
      df['daydelta'] = pd.to_timedelta(df['daydelta'])
      df['daydelta_int'] = df['daydelta'].dt.days
      return df
  \<close>
  Reading \<^verbatim>\<open>df['daydelta']\<close> after the loop raises \<^verbatim>\<open>KeyError\<close> when no cell was written.
  A column that was created by writing \<^verbatim>\<open>NaT\<close> and never received a difference is a
  column of dates (\<^verbatim>\<open>datetime64\<close>), which \<^verbatim>\<open>pd.to_timedelta\<close> refuses with \<^verbatim>\<open>TypeError\<close>;
  once a difference is written the column holds the written objects, which it converts.
\<close>

definition daydelta_step :: "sorter \<Rightarrow> dataframe \<Rightarrow> string \<Rightarrow> dataframe" where
  "daydelta_step kind df i =
     (let sub_df = daydelta_of kind (get_subdf kind df i)
      in foldl (\<lambda>df row. loc_set_daydelta df (label row) (daydelta row)) df sub_df)"

definition calculate_daydelta :: "sorter \<Rightarrow> dataframe \<Rightarrow> error + dataframe" where
  "calculate_daydelta kind df =
     (let df1 = foldl (daydelta_step kind) df (unique (map keyword (rows df)))
      in if ''daydelta'' \<notin> set (columns df1) then Inl (KeyError ''daydelta'')
         else if list_all (\<lambda>r. daydelta r = None) (rows df1) then Inl TypeError
         else Inr \<lparr>rows = map (\<lambda>r. r\<lparr>daydelta_int := daydelta r\<rparr>) (rows df1),
                   columns = add_column ''daydelta_int'' (columns df1)\<rparr>)"

section \<open>Marking the recurring groups\<close>

text \<open>
  \<^verbatim>\<open>
  def calculate_recurring(df):
      for i in df['keyword'].unique():
          sub_df = get_subdf(df, i)
          if is_recurring(sub_df, 0.2) == True:
              df.loc[sub_df.index, 'recurring'] = True
      df['recurring'].fillna(False, inplace = True)
      return df
  \<close>
\<close>

definition loc_set_recurring :: "dataframe \<Rightarrow> nat list \<Rightarrow> dataframe" where
  "loc_set_recurring df index =
     \<lparr>rows = map (\<lambda>r. if label r \<in> set index then r\<lparr>recurring := Some True\<rparr> else r) (rows df),
      columns = add_column ''recurring'' (columns df)\<rparr>"

definition recurring_step :: "sorter \<Rightarrow> dataframe \<Rightarrow> string \<Rightarrow> dataframe" where
  "recurring_step kind df i =
     (let sub_df = get_subdf kind df i
      in if is_recurring sub_df default_tolerance then loc_set_recurring df (map label sub_df) else df)"

definition fillna_False :: "bool option \<Rightarrow> bool option" where
  "fillna_False v = (case v of None \<Rightarrow> Some False | Some b \<Rightarrow> Some b)"

definition calculate_recurring :: "sorter \<Rightarrow> dataframe \<Rightarrow> error + dataframe" where
  "calculate_recurring kind df =
     (let df1 = foldl (recurring_step kind) df (unique (map keyword (rows df)))
      in if ''recurring'' \<notin> set (columns df1) then Inl (KeyError ''recurring'')
         else Inr (df1\<lparr>rows := map (\<lambda>r. r\<lparr>recurring := fillna_False (recurring r)\<rparr>) (rows df1)\<rparr>))"

section \<open>Entity name\<close>

text \<open>
  \<^verbatim>\<open>str.split()\<close> cuts at runs of whitespace and returns no empty word; \<^verbatim>\<open>str.strip()\<close>
  removes whitespace at both ends; \<^verbatim>\<open>word in desc\<close> holds when \<open>word\<close> occurs in \<open>desc\<close> as a
  contiguous piece.  Whitespace is what \<^verbatim>\<open>str.isspace\<close> accepts: the space, the controls
  U+0009 to U+000D and U+001C to U+001F, the next-line control U+0085 and the no-break
  space U+00A0.
\<close>

definition whitespace :: "char \<Rightarrow> bool" where
  "whitespace c \<longleftrightarrow>
     c \<in> set [CHR '' '', CHR 0x09, CHR 0x0A, CHR 0x0B, CHR 0x0C, CHR 0x0D,
              CHR 0x1C, CHR 0x1D, CHR 0x1E, CHR 0x1F, CHR 0x85, CHR 0xA0]"

fun split_acc :: "string \<Rightarrow> string \<Rightarrow> string list" where
  "split_acc w [] = (if w = [] then [] else [w])"
| "split_acc w (c # cs) =
     (if whitespace c then (if w = [] then split_acc [] cs else w # split_acc [] cs)
      else split_acc (w @ [c]) cs)"

definition split :: "string \<Rightarrow> string list" where
  "split s = split_acc [] s"

definition strip :: "string \<Rightarrow> string" where
  "strip s = rev (dropWhile whitespace (rev (dropWhile whitespace s)))"

fun contains :: "string \<Rightarrow> string \<Rightarrow> bool" where
  "contains [] word = (word = [])"
| "contains (c # desc) word = (prefix word (c # desc) \<or> contains desc word)"

text \<open>
  \<^verbatim>\<open>
  def find_entity_name(data):
      common_words = ''
      strings = list(data)
      for word in strings[0].split():
          if all(word in desc for desc in strings):
              common_words += word + ' '
      common_words = common_words.strip()
      return common_words
  \<close>
\<close>

definition find_entity_name :: "string list \<Rightarrow> error + string" where
  "find_entity_name data =
     (let strings = data
      in case item0 strings of
           Inl e \<Rightarrow> Inl e
         | Inr first \<Rightarrow>
             Inr (strip (foldl (\<lambda>common_words word.
                    if list_all (\<lambda>desc. contains desc word) strings
                    then common_words @ word @ '' '' else common_words) [] (split first))))"

text \<open>\<^verbatim>\<open>' '.join(words)\<close>: the words with one space between neighbours.\<close>

fun join :: "string list \<Rightarrow> string" where
  "join [] = []"
| "join [w] = w"
| "join (w # ws) = w @ '' '' @ join ws"

section \<open>Summary\<close>

text \<open>
  \<^verbatim>\<open>.round(0)\<close> of a numpy float rounds to the nearest integer, a half to the even
  neighbour; \<^verbatim>\<open>NaN\<close> stays \<^verbatim>\<open>NaN\<close>.
\<close>

definition round0 :: "float \<Rightarrow> int option" where
  "round0 x = map_option round_half_even x"

record summary =
  entity_name :: string
  income_out :: bool
  period_days :: "int option"
  typical_amount_cents :: "int option"

text \<open>
  \<^verbatim>\<open>
  def get_recurring_keywords(df):
      keywords = df[df['recurring'] == True]['keyword'].unique()
      return list(keywords)

  def generate_output(df):
      recurring_keywords = get_recurring_keywords(df)
      output = []
      for keyword in recurring_keywords:
          info_dict = {}
          sub_df = get_subdf(df, keyword)
          info_dict['entity_name'] = find_entity_name(sub_df['clean_desc'])
          info_dict['income'] = sub_df['income'].iloc[0]
          info_dict['period_days'] = sub_df['daydelta_int'][-3:].mean().round(0)
          info_dict['typical_amount_cents'] = sub_df['amount_cents'].mean().round(0)
          output.append(info_dict)
      return output
  \<close>
  The column \<^verbatim>\<open>amount_cents\<close> holds integers, which \<^verbatim>\<open>mean()\<close> adds up as doubles.
\<close>

definition get_recurring_keywords :: "dataframe \<Rightarrow> string list" where
  "get_recurring_keywords df =
     unique (map keyword (filter (\<lambda>r. recurring r = Some True) (rows df)))"

definition info_dict :: "sorter \<Rightarrow> dataframe \<Rightarrow> string \<Rightarrow> error + summary" where
  "info_dict kind df kw =
     (let sub_df = get_subdf kind df kw
      in case find_entity_name (map clean_desc sub_df) of
           Inl e \<Rightarrow> Inl e
         | Inr name \<Rightarrow>
             (case item0 (map income sub_df) of
                Inl e \<Rightarrow> Inl e
              | Inr inc \<Rightarrow>
                  Inr \<lparr>entity_name = name, income_out = inc,
                       period_days = round0 (mean (tail3 (map (to_float \<circ> daydelta_int) sub_df))),
                       typical_amount_cents = round0 (mean (map (float_of_int \<circ> amount_cents) sub_df))\<rparr>))"

definition generate_output :: "sorter \<Rightarrow> dataframe \<Rightarrow> error + summary list" where
  "generate_output kind df = map_rows (info_dict kind df) (get_recurring_keywords df)"

section \<open>Driver\<close>

text \<open>
  \<^verbatim>\<open>
  def get_recurring_transactions(df):
      df = clean_dataframe(df)
      df = clean_description(df)
      df = calculate_daydelta(df)
      df = calculate_recurring(df)
      output = generate_output(df)
      return output
  \<close>
\<close>

definition get_recurring_transactions :: "sorter \<Rightarrow> transaction list \<Rightarrow> error + summary list" where
  "get_recurring_transactions kind txns =
     (case clean_description (clean_dataframe txns) of
        Inl e \<Rightarrow> Inl e
      | Inr df2 \<Rightarrow>
          (case calculate_daydelta kind df2 of
             Inl e \<Rightarrow> Inl e
           | Inr df3 \<Rightarrow>
               (case calculate_recurring kind df3 of
                  Inl e \<Rightarrow> Inl e
                | Inr df4 \<Rightarrow> generate_output kind df4)))"

text \<open>
  The tables between the steps of the driver: the table with its deltas, on which
  \<^verbatim>\<open>calculate_recurring\<close> starts, and the table on which \<^verbatim>\<open>generate_output\<close> runs.
\<close>

definition with_deltas :: "sorter \<Rightarrow> transaction list \<Rightarrow> error + dataframe" where
  "with_deltas kind txns =
     (case clean_description (clean_dataframe txns) of
        Inl e \<Rightarrow> Inl e
      | Inr df2 \<Rightarrow> calculate_daydelta kind df2)"

definition annotated :: "sorter \<Rightarrow> transaction list \<Rightarrow> error + dataframe" where
  "annotated kind txns =
     (case with_deltas kind txns of
        Inl e \<Rightarrow> Inl e
      | Inr df3 \<Rightarrow> calculate_recurring kind df3)"

text \<open>The keywords of the groups that pass the recurrence test on the table with its deltas.\<close>

definition accepted_groups :: "sorter \<Rightarrow> transaction list \<Rightarrow> string list" where
  "accepted_groups kind txns =
     (case with_deltas kind txns of
        Inl e \<Rightarrow> []
      | Inr df3 \<Rightarrow>
          filter (\<lambda>k. is_recurring (get_subdf kind df3 k) default_tolerance)
            (unique (map keyword (rows df3))))"

text \<open>The keyword column of the table on which \<^verbatim>\<open>calculate_daydelta\<close> starts.\<close>

definition keywords_of :: "transaction list \<Rightarrow> string list" where
  "keywords_of txns =
     (case clean_description (clean_dataframe txns) of
        Inl e \<Rightarrow> []
      | Inr df2 \<Rightarrow> map keyword (rows df2))"
section \<open>Example inputs\<close>

definition txn :: "int \<Rightarrow> string \<Rightarrow> int \<Rightarrow> bool \<Rightarrow> transaction" where
  "txn d s a i = \<lparr>made_on = d, original_description = s, amount_cents = a, income = i\<rparr>"

text \<open>Two payments to the same payee on the same day.\<close>

definition same_day :: "transaction list" where
  "same_day = [txn 5 ''SPOTIFY A'' 999 False, txn 5 ''SPOTIFY B'' 999 False]"

text \<open>
  Scenario A of the specification: payments on 2020-01-01, 2020-02-01 and 2020-03-03, as
  day numbers.
\<close>

definition scenario_a :: "transaction list" where
  "scenario_a =
     [txn 0 ''SPOTIFY'' 999 False, txn 31 ''SPOTIFY'' 999 False, txn 62 ''SPOTIFY'' 999 False]"

text \<open>Two monthly payments, and four payments to one payee next to a single other payment.\<close>

definition two_payments :: "transaction list" where
  "two_payments = [txn 0 ''SPOTIFY P1'' 999 False, txn 31 ''SPOTIFY P2'' 999 False]"

definition monthly :: "transaction list" where
  "monthly =
     [txn 0 ''SPOTIFY P1'' 999 False, txn 31 ''SPOTIFY P2'' 999 False,
      txn 5 ''TFL TRAVEL CH ON 03 APR CLP'' 250 False,
      txn 62 ''SPOTIFY P3'' 1000 False, txn 90 ''SPOTIFY P4'' 1499 False]"



text \<open>
  Four payments at intervals of 21, 21 and 28 days: 28 is exactly six fifths of the mean
  interval.
\<close>

definition band_edge :: "transaction list" where
  "band_edge =
     [txn 0 ''GYM'' 2500 False, txn 21 ''GYM'' 2500 False, txn 42 ''GYM'' 2500 False,
      txn 70 ''GYM'' 2500 False]"

text \<open>Four payments, 30 days apart, of \<open>2\<^sup>5\<^sup>3 + 1\<close> cents each.\<close>

definition large_amounts :: "transaction list" where
  "large_amounts =
     [txn 0 ''RENT'' 9007199254740993 False, txn 30 ''RENT'' 9007199254740993 False,
      txn 60 ''RENT'' 9007199254740993 False, txn 90 ''RENT'' 9007199254740993 False]"


text \<open>Four payments, 30 days apart, under one and the same description.\<close>

definition same_description :: "transaction list" where
  "same_description =
     [txn 0 ''NETFLIX.COM CH'' 799 False, txn 30 ''NETFLIX.COM CH'' 799 False,
      txn 60 ''NETFLIX.COM CH'' 799 False, txn 90 ''NETFLIX.COM CH'' 799 False]"
section \<open>Properties of double rounding\<close>

lemma round_half_even_of_int: "round_half_even (of_int k) = k"
  by (simp add: round_half_even_def)

lemma round_half_even_error: "\<bar>of_int (round_half_even x) - x\<bar> \<le> 1 / 2"
  unfolding round_half_even_def Let_def
  by (auto simp: abs_if) linarith+

lemma quotient_ilog2:
  assumes "0 < x"
  shows "2 powi ilog2 x \<le> x"
proof -
  obtain p q where pq: "quotient_of x = (p, q)"
    by (cases "quotient_of x")
  then have q: "0 < q" and x: "x = of_int p / of_int q"
    using quotient_of_denom_pos [OF pq] quotient_of_div [OF pq] by simp_all
  from assms x q have p: "0 < p"
    by (simp add: zero_less_divide_iff)
  define d where "d = bitlen p - bitlen q"
  have lo: "(2::rat) ^ nat (bitlen p - 1) \<le> of_int p"
    using bitlen_bounds [OF p] by (metis of_int_le_iff of_int_numeral of_int_power)
  have hi: "of_int q < (2::rat) ^ nat (bitlen q)"
    using bitlen_bounds [OF q] by (metis of_int_less_iff of_int_numeral of_int_power)
  have bp: "0 < bitlen p" and bq: "0 < bitlen q"
    using p q by (simp_all add: bitlen_alt_def)
  have "(2::rat) powi (d - 1) = 2 powi (bitlen p - 1) / 2 powi bitlen q"
    unfolding d_def by (simp add: power_int_diff)
  also have "\<dots> = 2 ^ nat (bitlen p - 1) / 2 ^ nat (bitlen q)"
    using bp bq by (simp add: power_int_def)
  also have "\<dots> \<le> of_int p / of_int q"
    using lo hi q p by (intro frac_le) simp_all
  finally have "(2::rat) powi (d - 1) \<le> x"
    by (simp add: x)
  then show ?thesis
    unfolding ilog2_def Let_def pq fst_conv snd_conv d_def [symmetric] by simp
qed


lemma float64_dyadic:
  assumes "\<bar>k\<bar> < 2 ^ 53"
  shows "float64 (of_int k * 2 powi j) = of_int k * 2 powi j"
proof (cases "k = 0")
  case True
  then show ?thesis by (simp add: float64_def)
next
  case False
  define x :: rat where "x = of_int k * 2 powi j"
  define e where "e = ilog2 \<bar>x\<bar> - 52"
  have ax: "\<bar>x\<bar> = of_int \<bar>k\<bar> * 2 powi j"
    by (simp add: x_def abs_mult)
  from False have pos: "0 < \<bar>x\<bar>"
    by (simp add: x_def)
  have "of_int \<bar>k\<bar> < (2::rat) ^ 53"
    using assms by (metis of_int_less_iff of_int_numeral of_int_power)
  then have "\<bar>x\<bar> < 2 ^ 53 * 2 powi j"
    unfolding ax by (intro mult_strict_right_mono) simp_all
  also have "\<dots> = 2 powi (53 + j)"
    by (simp add: power_int_add)
  finally have "(2::rat) powi ilog2 \<bar>x\<bar> < 2 powi (53 + j)"
    using quotient_ilog2 [OF pos] by simp
  then have "ilog2 \<bar>x\<bar> < 53 + j"
    using power_int_increasing [of "53 + j" "ilog2 \<bar>x\<bar>" "2::rat"] by (cases "ilog2 \<bar>x\<bar> < 53 + j") simp_all
  then have ej: "e \<le> j"
    by (simp add: e_def)
  have scaled: "(of_int (k * 2 ^ nat (j - e)) :: rat) = of_int k * 2 powi (j - e)"
    using ej by (simp add: power_int_def)
  have "x / 2 powi e = of_int k * 2 powi (j - e)"
    by (simp add: x_def power_int_diff)
  then have "round_half_even (x / 2 powi e) = k * 2 ^ nat (j - e)"
    by (simp only: scaled [symmetric] round_half_even_of_int)
  then have "of_int (round_half_even (x / 2 powi e)) * 2 powi e
      = (of_int k :: rat) * 2 powi (j - e) * 2 powi e"
    by (simp only: scaled)
  also have "\<dots> = x"
    by (simp add: x_def power_int_diff)
  finally show ?thesis
    using pos unfolding float64_def Let_def x_def [symmetric] e_def [symmetric] by simp
qed

lemma float64_of_int:
  assumes "\<bar>k\<bar> < 2 ^ 53"
  shows "float64 (of_int k) = of_int k"
  using float64_dyadic [OF assms, of 0] by simp

lemma float64_error: "\<bar>float64 x - x\<bar> \<le> \<bar>x\<bar> / 2 ^ 53"
proof (cases "x = 0")
  case True
  then show ?thesis by (simp add: float64_def)
next
  case False
  define e where "e = ilog2 \<bar>x\<bar> - 52"
  define y where "y = x / 2 powi e"
  have x: "x = y * 2 powi e"
    by (simp add: y_def)
  have "float64 x - x = (of_int (round_half_even y) - y) * 2 powi e"
    using False unfolding float64_def Let_def e_def [symmetric] y_def [symmetric]
    by (simp add: x algebra_simps)
  then have "\<bar>float64 x - x\<bar> = \<bar>of_int (round_half_even y) - y\<bar> * 2 powi e"
    by (simp add: abs_mult)
  also have "\<dots> \<le> 1 / 2 * 2 powi e"
    by (intro mult_right_mono round_half_even_error) simp
  also have "\<dots> = 2 powi ilog2 \<bar>x\<bar> / 2 ^ 53"
    by (simp add: e_def power_int_diff)
  also have "\<dots> \<le> \<bar>x\<bar> / 2 ^ 53"
    using quotient_ilog2 [of "\<bar>x\<bar>"] False by (intro divide_right_mono) simp_all
  finally show ?thesis .
qed

lemma foldl_sum_exact:
  assumes "\<bar>a\<bar> + sum_list (map abs ks) < 2 ^ 53"
  shows "foldl (\<lambda>s v. float64 (s + v)) (of_int a) (map (\<lambda>k. float64 (of_int k)) ks)
      = of_int (a + sum_list ks)"
  using assms
proof (induction ks arbitrary: a)
  case Nil
  then show ?case by simp
next
  case (Cons k ks)
  from Cons.prems have k: "\<bar>k\<bar> < 2 ^ 53" and ak: "\<bar>a + k\<bar> < 2 ^ 53"
    and rest: "\<bar>a + k\<bar> + sum_list (map abs ks) < 2 ^ 53"
    using sum_list_abs [of ks] by simp_all
  have "float64 (of_int a + float64 (of_int k)) = of_int (a + k)"
    using float64_of_int [OF k] float64_of_int [OF ak] by simp
  then show ?case
    using Cons.IH [OF rest] by (simp add: add.assoc)
qed

lemma fsum_exact:
  assumes "sum_list (map abs ks) < 2 ^ 53"
  shows "fsum (map (\<lambda>k. float64 (of_int k)) ks) = of_int (sum_list ks)"
  using foldl_sum_exact [of 0 ks] assms by (simp add: fsum_def)

lemma dropna_floats: "dropna (map float_of_int ks) = map (\<lambda>k. float64 (of_int k)) ks"
  by (induction ks) (simp_all add: float_of_int_def)

lemma mean_exact_sum:
  assumes "ks \<noteq> []" and "sum_list (map abs ks) < 2 ^ 53"
  shows "mean (map float_of_int ks) = Some (float64 (average ks))"
  using assms by (simp add: mean_def dropna_floats fsum_exact average_def)

lemma round_half_even_unique:
  assumes "\<bar>x - of_int r\<bar> < 1 / 2"
  shows "round_half_even x = r"
proof (cases "of_int r \<le> x")
  case True
  with assms have "\<lfloor>x\<rfloor> = r"
    by (intro floor_unique) (simp_all add: abs_less_iff)
  with assms True show ?thesis
    by (simp add: round_half_even_def Let_def abs_less_iff)
next
  case False
  with assms have "\<lfloor>x\<rfloor> = r - 1"
    by (intro floor_unique) (simp_all add: abs_less_iff)
  with assms False show ?thesis
    by (simp add: round_half_even_def Let_def abs_less_iff)
qed

lemma half_integer_exact:
  assumes "\<bar>x\<bar> < 2 ^ 52" and "\<bar>x - of_int r\<bar> = 1 / 2"
  shows "float64 x = x"
proof -
  define k where "k = (if of_int r \<le> x then 2 * r + 1 else 2 * r - 1)"
  from assms(2) have x: "x = of_int k * 2 powi (- 1)"
    by (auto simp: k_def abs_if power_int_minus field_simps split: if_splits)
  have "\<bar>of_int k :: rat\<bar> = 2 * \<bar>x\<bar>"
    unfolding x by (simp add: power_int_minus abs_mult)
  with assms(1) have "\<bar>of_int k :: rat\<bar> < of_int (2 ^ 53)"
    by simp
  then have "\<bar>k\<bar> < 2 ^ 53"
    unfolding of_int_abs [symmetric] of_int_less_iff .
  then show ?thesis
    unfolding x by (rule float64_dyadic)
qed

lemma round_mean_exact:
  assumes "\<bar>S\<bar> < 2 ^ 52" and "0 < n"
  shows "round_half_even (float64 (of_int S / of_nat n)) = round_half_even (of_int S / of_nat n)"
proof -
  define q :: rat where "q = of_int S / of_nat n"
  define r where "r = round_half_even q"
  have n1: "(1::rat) \<le> of_nat n"
    using assms(2) by simp
  have absq: "\<bar>q\<bar> = of_int \<bar>S\<bar> / of_nat n"
    by (simp add: q_def)
  have S: "of_int \<bar>S\<bar> < (2::rat) ^ 52"
    using assms(1) by (metis of_int_less_iff of_int_numeral of_int_power)
  have "\<bar>q\<bar> \<le> of_int \<bar>S\<bar>"
    unfolding absq using n1 by (simp add: divide_le_eq mult_le_cancel_left1)
  with S have small: "\<bar>q\<bar> < 2 ^ 52"
    by simp
  have near: "\<bar>q - of_int r\<bar> \<le> 1 / 2"
    using round_half_even_error [of q] by (simp add: r_def abs_minus_commute)
  show ?thesis
  proof (cases "\<bar>q - of_int r\<bar> = 1 / 2")
    case True
    then show ?thesis
      using half_integer_exact [OF small True] by (simp add: q_def)
  next
    case False
    with near have lt: "\<bar>q - of_int r\<bar> < 1 / 2"
      by simp
    define m where "m = \<bar>S - of_nat n * r\<bar>"
    have qr: "\<bar>q - of_int r\<bar> = of_int m / of_nat n"
    proof -
      have "q - of_int r = of_int (S - of_nat n * r) / of_nat n"
        using assms(2) by (simp add: q_def field_simps)
      then show ?thesis
        by (simp add: m_def abs_divide del: of_int_diff of_int_mult)
    qed
    from lt have "of_int m / of_nat n < (1::rat) / 2"
      by (simp add: qr)
    then have "(of_int (2 * m) :: rat) < of_int (of_nat n)"
      using assms(2) by (simp add: field_simps)
    then have "2 * m < of_nat n"
      unfolding of_int_less_iff .
    then have "2 * m + 1 \<le> of_nat n"
      by simp
    then have "(of_int (2 * m + 1) :: rat) \<le> of_int (of_nat n)"
      unfolding of_int_le_iff .
    then have gap: "\<bar>q - of_int r\<bar> + 1 / (2 * of_nat n) \<le> 1 / 2"
      using assms(2) by (simp add: qr field_simps)
    have "\<bar>float64 q - q\<bar> \<le> \<bar>q\<bar> / 2 ^ 53"
      by (rule float64_error)
    also have "\<dots> < 1 / (2 * of_nat n)"
      using S assms(2) by (simp add: absq field_simps)
    finally have "\<bar>float64 q - of_int r\<bar> < 1 / 2"
      using gap by linarith
    then have "round_half_even (float64 q) = r"
      by (rule round_half_even_unique)
    then show ?thesis
      by (simp add: r_def q_def)
  qed
qed
section \<open>Properties of the classifier\<close>

lemma dropna_map_Some: "dropna (map Some ds) = ds"
  by (induction ds) simp_all

lemma tail3_short: "length xs \<le> 3 \<Longrightarrow> tail3 xs = xs"
  by (simp add: tail3_def)

lemma tail3_Cons_long:
  assumes "3 \<le> length xs"
  shows "tail3 (x # xs) = tail3 xs"
proof -
  from assms have "length (x # xs) - 3 = Suc (length xs - 3)"
    by simp
  then show ?thesis
    unfolding tail3_def by simp
qed

lemma tail3_map: "tail3 (map f xs) = map f (tail3 xs)"
  by (simp add: tail3_def drop_map)

lemma tail3_length: "3 \<le> length xs \<Longrightarrow> length (tail3 xs) = 3"
  by (simp add: tail3_def)

lemma window_with_nan:
  assumes "None \<in> set (tail3 (map daydelta_int df))"
  shows "\<not> is_recurring df tolerance"
proof -
  from assms obtain r where r: "r \<in> set (tail3 df)" "daydelta_int r = None"
    unfolding tail3_map by auto
  then have nan: "to_float (daydelta_int r) = None"
    by (simp add: to_float_def)
  have "\<not> (fle l (to_float (daydelta_int r)) \<and> fle (to_float (daydelta_int r)) u)" for l u
    unfolding nan by (simp add: fle_def split: option.splits)
  with r(1) show ?thesis
    unfolding is_recurring_def Let_def tail3_map
    by (auto simp: list_all_iff)
qed

lemma window_defined:
  assumes "tail3 (map daydelta_int df) = map Some D" and "D \<noteq> []"
    and "sum_list (map abs D) < 2 ^ 53"
  shows "is_recurring df tolerance = in_band64 tolerance D"
proof -
  have small: "\<bar>d\<bar> < 2 ^ 53" if "d \<in> set D" for d
  proof -
    from that have "\<bar>d\<bar> \<in> set (map abs D)"
      by simp
    then have "\<bar>d\<bar> \<le> sum_list (map abs D)"
      by (rule member_le_sum_list) auto
    with assms(3) show ?thesis
      by simp
  qed
  have "tail3 (map (to_float \<circ> daydelta_int) df) = map to_float (tail3 (map daydelta_int df))"
    unfolding tail3_map by simp
  then have window: "tail3 (map (to_float \<circ> daydelta_int) df) = map float_of_int D"
    by (simp add: assms(1) to_float_def)
  have cells: "list_all (\<lambda>x. fle (Some l) x \<and> fle x (Some u)) (map float_of_int D)
      = list_all (\<lambda>d. l \<le> of_int d \<and> of_int d \<le> u) D" for l u
    using small by (simp add: list_all_iff fle_def float_of_int_def float64_of_int)
  show ?thesis
    unfolding is_recurring_def Let_def window mean_exact_sum [OF assms(2,3)]
    by (simp add: fmul_def fsub_def fadd_def fop_def cells in_band64_def Let_def)
qed

text \<open>
  Claim C1, as amended.  For a group whose delta column is undefined at the first
  transaction and defined at the others (\<open>ds\<close>, in chronological order, day counts below
  \<open>2\<^sup>5\<^sup>1\<close>), \<open>is_recurring\<close> with tolerance \<open>t\<close> answers not recurring whenever the group has
  fewer than three defined deltas (at most three transactions: the undefined first entry
  is then inside the three-entry window and fails both comparisons), and otherwise answers
  recurring if and only if each of the last three deltas lies, bounds included, between
  the two bounds that the program computes in double precision from their mean: with \<open>D\<close>
  those three deltas and \<open>m\<close> the double nearest to \<open>mean(D)\<close>, the lower bound is the double
  nearest to \<open>m\<close> times the double nearest to \<open>1 - t\<close>, and the upper bound likewise with
  \<open>1 + t\<close>.
\<close>

theorem is_recurring_last_three:
  assumes "map daydelta_int df = None # map Some ds"
    and "\<forall>d \<in> set ds. \<bar>d\<bar> < 2 ^ 51"
  shows "is_recurring df t = (3 \<le> length ds \<and> in_band64 t (tail3 ds))"
proof (cases "3 \<le> length ds")
  case True
  then have window: "tail3 (map daydelta_int df) = map Some (tail3 ds)"
    by (simp add: assms(1) tail3_Cons_long tail3_map)
  from True have three: "length (tail3 ds) = 3"
    by (rule tail3_length)
  then obtain a b c where abc: "tail3 ds = [a, b, c]"
    by (auto simp: length_Suc_conv numeral_3_eq_3)
  have "set (tail3 ds) \<subseteq> set ds"
    unfolding tail3_def by (rule set_drop_subset)
  then have "\<bar>a\<bar> < 2 ^ 51" "\<bar>b\<bar> < 2 ^ 51" "\<bar>c\<bar> < 2 ^ 51"
    using assms(2) abc by auto
  then have "sum_list (map abs (tail3 ds)) < 2 ^ 53"
    by (simp add: abc)
  moreover have "tail3 ds \<noteq> []"
    by (simp add: abc)
  ultimately show ?thesis
    using True window_defined [OF window] by simp
next
  case False
  then have "tail3 (map daydelta_int df) = None # map Some ds"
    by (simp add: assms(1) tail3_short)
  then have "\<not> is_recurring df t"
    by (intro window_with_nan) simp
  with False show ?thesis by simp
qed

theorem is_recurring_last_three_witness:
  "(case with_deltas insertion_sort monthly of
     Inl e \<Rightarrow> False
   | Inr df \<Rightarrow>
       map daydelta_int (get_subdf insertion_sort df ''spotify debit'') = None # map Some [31, 31, 28]
       \<and> is_recurring (get_subdf insertion_sort df ''spotify debit'') default_tolerance
       \<and> map daydelta_int (get_subdf insertion_sort df ''tfl debit'') = None # map Some []
       \<and> \<not> is_recurring (get_subdf insertion_sort df ''tfl debit'') default_tolerance)
   \<and> (case with_deltas insertion_sort band_edge of
     Inl e \<Rightarrow> False
   | Inr df \<Rightarrow>
       map daydelta_int (get_subdf insertion_sort df ''gym debit'') = None # map Some [21, 21, 28]
       \<and> in_band (1 / 5) [21, 21, 28]
       \<and> \<not> in_band64 default_tolerance [21, 21, 28]
       \<and> \<not> is_recurring (get_subdf insertion_sort df ''gym debit'') default_tolerance)"
proof -
  have "case with_deltas insertion_sort monthly of Inl e \<Rightarrow> False | Inr df \<Rightarrow> True"
    by code_simp
  then obtain df where df: "with_deltas insertion_sort monthly = Inr df"
    by (cases "with_deltas insertion_sort monthly") simp_all
  have "map daydelta_int (get_subdf insertion_sort (projr (with_deltas insertion_sort monthly))
      ''spotify debit'') = None # map Some [31, 31, 28]"
    by code_simp
  then have spotify: "map daydelta_int (get_subdf insertion_sort df ''spotify debit'')
      = None # map Some [31, 31, 28]"
    by (simp add: df)
  have "map daydelta_int (get_subdf insertion_sort (projr (with_deltas insertion_sort monthly))
      ''tfl debit'') = None # map Some []"
    by code_simp
  then have tfl: "map daydelta_int (get_subdf insertion_sort df ''tfl debit'') = None # map Some []"
    by (simp add: df)
  have "case with_deltas insertion_sort band_edge of Inl e \<Rightarrow> False | Inr df \<Rightarrow> True"
    by code_simp
  then obtain df' where df': "with_deltas insertion_sort band_edge = Inr df'"
    by (cases "with_deltas insertion_sort band_edge") simp_all
  have "map daydelta_int (get_subdf insertion_sort (projr (with_deltas insertion_sort band_edge))
      ''gym debit'') = None # map Some [21, 21, 28]"
    by code_simp
  then have gym: "map daydelta_int (get_subdf insertion_sort df' ''gym debit'')
      = None # map Some [21, 21, 28]"
    by (simp add: df')
  have band: "in_band64 default_tolerance (tail3 [31, 31, 28])"
    by code_simp
  have exact: "in_band (1 / 5) [21, 21, 28]"
    by code_simp
  have edge: "\<not> in_band64 default_tolerance (tail3 [21, 21, 28])"
    by code_simp
  have edge': "\<not> in_band64 default_tolerance [21, 21, 28]"
    by code_simp
  show ?thesis
    using is_recurring_last_three [OF spotify, of default_tolerance]
      is_recurring_last_three [OF tfl, of default_tolerance]
      is_recurring_last_three [OF gym, of default_tolerance]
      band exact edge edge' spotify tfl gym
    by (simp add: df df')
qed

text \<open>
  Claim C1 as stated fails.  Scenario A of the specification, three payments on
  2020-01-01, 2020-02-01 and 2020-03-03, has the defined deltas \<open>[31, 31]\<close>, which the
  classifier of the specification accepts, while \<open>is_recurring\<close> rejects the group.
\<close>

theorem is_recurring_min_window_counterexample:
  "case with_deltas insertion_sort scenario_a of
     Inl e \<Rightarrow> False
   | Inr df \<Rightarrow>
       map daydelta_int (get_subdf insertion_sort df ''spotify debit'') = None # map Some [31, 31]
       \<and> classify_spec [31, 31] (1 / 5)
       \<and> \<not> is_recurring (get_subdf insertion_sort df ''spotify debit'') default_tolerance"
  by code_simp
section \<open>Properties of the grouper\<close>

lemma set_unique_acc: "set (unique_acc seen xs) = set xs - set seen"
  by (induction seen xs rule: unique_acc.induct) auto

lemma distinct_unique_acc: "distinct (unique_acc seen xs)"
  by (induction seen xs rule: unique_acc.induct) (auto simp: set_unique_acc)

lemma set_unique: "set (unique xs) = set xs"
  by (simp add: unique_def set_unique_acc)

lemma distinct_unique: "distinct (unique xs)"
  by (simp add: unique_def distinct_unique_acc)

lemma mset_get_subdf:
  "sorting_algorithm kind \<Longrightarrow> mset (get_subdf kind df kw) = mset (filter (\<lambda>r. keyword r = kw) (rows df))"
  by (simp add: get_subdf_def sort_values_def sorting_algorithm_def)

lemma set_get_subdf:
  assumes "sorting_algorithm kind"
  shows "set (get_subdf kind df kw) = {r \<in> set (rows df). keyword r = kw}"
proof -
  have "set (get_subdf kind df kw) = set_mset (mset (get_subdf kind df kw))"
    by simp
  also have "\<dots> = set (filter (\<lambda>r. keyword r = kw) (rows df))"
    by (simp only: mset_get_subdf [OF assms] set_mset_mset)
  finally show ?thesis by simp
qed

lemma mset_filter_split:
  "k \<notin> set ks \<Longrightarrow>
   mset (filter (\<lambda>r. f r = k) xs) + mset (filter (\<lambda>r. f r \<in> set ks) xs)
     = mset (filter (\<lambda>r. f r \<in> set (k # ks)) xs)"
  by (induction xs) auto

lemma mset_concat_groups:
  assumes "sorting_algorithm kind" and "distinct ks"
  shows "mset (concat (map (get_subdf kind df) ks))
     = mset (filter (\<lambda>r. keyword r \<in> set ks) (rows df))"
  using assms(2)
proof (induction ks)
  case Nil
  then show ?case by simp
next
  case (Cons k ks)
  then have "mset (concat (map (get_subdf kind df) (k # ks)))
      = mset (filter (\<lambda>r. keyword r = k) (rows df))
        + mset (filter (\<lambda>r. keyword r \<in> set ks) (rows df))"
    by (simp add: mset_get_subdf [OF assms(1)])
  also have "\<dots> = mset (filter (\<lambda>r. keyword r \<in> set (k # ks)) (rows df))"
    using Cons.prems by (intro mset_filter_split) simp
  finally show ?case .
qed

lemma insertion_sort_sorts: "sorting_algorithm insertion_sort"
  by (simp add: sorting_algorithm_def insertion_sort_def)

text \<open>
  Claim C5.  For every table, under every sorting algorithm, the groups partition the
  lines exactly: the groups together hold the lines of the table, each as often as the table
  does; every line is in the group of exactly one keyword; the keywords of the groups are
  distinct; and every group is non-empty and consists of lines of the table.
\<close>

theorem groups_partition:
  assumes "sorting_algorithm kind"
  shows "mset (concat (groups kind df)) = mset (rows df)
    \<and> (\<forall>r \<in> set (rows df).
          \<exists>!k. k \<in> set (unique (map keyword (rows df))) \<and> r \<in> set (get_subdf kind df k))
    \<and> distinct (unique (map keyword (rows df)))
    \<and> (\<forall>g \<in> set (groups kind df). g \<noteq> [] \<and> set g \<subseteq> set (rows df))"
proof (intro conjI)
  have "mset (concat (groups kind df))
      = mset (filter (\<lambda>r. keyword r \<in> set (unique (map keyword (rows df)))) (rows df))"
    unfolding groups_def by (rule mset_concat_groups [OF assms distinct_unique])
  also have "\<dots> = mset (rows df)"
    by (simp add: set_unique)
  finally show "mset (concat (groups kind df)) = mset (rows df)" .
next
  show "\<forall>r \<in> set (rows df).
          \<exists>!k. k \<in> set (unique (map keyword (rows df))) \<and> r \<in> set (get_subdf kind df k)"
    by (auto simp: set_get_subdf [OF assms] set_unique)
next
  show "distinct (unique (map keyword (rows df)))"
    by (rule distinct_unique)
next
  show "\<forall>g \<in> set (groups kind df). g \<noteq> [] \<and> set g \<subseteq> set (rows df)"
  proof
    fix g assume "g \<in> set (groups kind df)"
    then obtain k where k: "k \<in> keyword ` set (rows df)" and g: "g = get_subdf kind df k"
      by (auto simp: groups_def set_unique)
    from k obtain r where "r \<in> set (rows df)" "keyword r = k" by auto
    then have "r \<in> set g" by (simp add: g set_get_subdf [OF assms])
    then have "g \<noteq> []" by auto
    moreover have "set g \<subseteq> set (rows df)"
      by (auto simp: g set_get_subdf [OF assms])
    ultimately show "g \<noteq> [] \<and> set g \<subseteq> set (rows df)" ..
  qed
qed

theorem groups_partition_witness:
  "sorting_algorithm insertion_sort \<and>
   (case clean_description (clean_dataframe monthly) of
      Inl e \<Rightarrow> False
    | Inr df \<Rightarrow>
        mset (concat (groups insertion_sort df)) = mset (rows df)
        \<and> map (map label) (groups insertion_sort df) = [[0, 1, 3, 4], [2]])"
proof -
  have s: "sorting_algorithm insertion_sort"
    by (simp add: sorting_algorithm_def insertion_sort_def)
  obtain df where df: "clean_description (clean_dataframe monthly) = Inr df"
    by (cases "clean_description (clean_dataframe monthly)") (simp_all add: clean_description_def
        split: sum.splits, code_simp)
  have "map (map label) (groups insertion_sort (projr (clean_description (clean_dataframe monthly))))
      = [[0, 1, 3, 4], [2]]"
    by code_simp
  then show ?thesis
    using groups_partition [OF s, of df] s by (simp add: df)
qed
section \<open>Properties of the pipeline\<close>

lemma first_word_total: "first_word x = Inr (takeWhile (\<lambda>c. c \<noteq> CHR '' '') x)"
proof (cases "CHR '' '' \<in> set x")
  case True
  then show ?thesis by (simp add: first_word_def split1_def item0_def)
next
  case False
  then have "x = takeWhile (\<lambda>c. c \<noteq> CHR '' '') x"
    by (induction x) auto
  with False show ?thesis by (simp add: first_word_def split1_def item0_def)
qed

lemma describe_row_total:
  "describe_row r = Inr (r\<lparr>clean_desc := clean_text (original_description r),
     keyword := takeWhile (\<lambda>c. c \<noteq> CHR '' '') (clean_text (original_description r))
        @ '' '' @ type_col r\<rparr>)"
  by (simp add: describe_row_def first_word_total Let_def)

lemma map_rows_total: "(\<And>x. f x = Inr (g x)) \<Longrightarrow> map_rows f xs = Inr (map g xs)"
  by (induction xs) simp_all

lemma clean_description_total:
  "clean_description df = Inr
     \<lparr>rows = map (\<lambda>r. r\<lparr>clean_desc := clean_text (original_description r),
          keyword := takeWhile (\<lambda>c. c \<noteq> CHR '' '') (clean_text (original_description r))
             @ '' '' @ type_col r\<rparr>) (rows df),
      columns = add_column ''keyword'' (add_column ''clean_desc'' (columns df))\<rparr>"
  by (simp add: clean_description_def map_rows_total [of describe_row, OF describe_row_total])

lemma prepared_frame:
  assumes "clean_description (clean_dataframe txns) = Inr df"
  shows "length (rows df) = length txns"
    and "''recurring'' \<notin> set (columns df)"
    and "''daydelta'' \<notin> set (columns df)"
    and "r \<in> set (rows df) \<Longrightarrow>
           clean_desc r = clean_text (original_description r)
           \<and> keyword r = takeWhile (\<lambda>c. c \<noteq> CHR '' '') (clean_desc r) @ '' ''
               @ (if income r then ''credit'' else ''debit'')"
  using assms
  by (auto simp: clean_description_total clean_dataframe_def add_column_def new_row_def)

text \<open>
  Claim C3 (no transaction: no error, an empty summary list) does not hold of the code.
  With no transaction there is no keyword, the loop of \<^verbatim>\<open>calculate_daydelta\<close> writes no
  cell, and reading the column \<^verbatim>\<open>daydelta\<close> behind the loop raises \<^verbatim>\<open>KeyError\<close>: the
  pipeline returns no list, under every sorting algorithm.
\<close>

theorem empty_input_raises:
  "get_recurring_transactions kind [] = Inl (KeyError ''daydelta'')"
  by (simp add: get_recurring_transactions_def clean_dataframe_def clean_description_def
     calculate_daydelta_def unique_def add_column_def)


lemma set_add_column: "set (add_column c cs) = insert c (set cs)"
  by (auto simp: add_column_def)

lemma loc_fold_columns:
  "set (columns (foldl (\<lambda>df row. loc_set_daydelta df (label row) (daydelta row)) df sub))
     = (if sub = [] then set (columns df) else insert ''daydelta'' (set (columns df)))"
  by (induction sub arbitrary: df) (auto simp: loc_set_daydelta_def set_add_column)

lemma length_shift_diff: "length (shift_diff ds) = length ds"
  by (cases ds) simp_all

lemma length_sorted:
  assumes "sorting_algorithm kind"
  shows "length (sort_values kind by df) = length df"
proof -
  from assms have "mset (sort_values kind by df) = mset df"
    by (simp add: sorting_algorithm_def sort_values_def)
  then show ?thesis by (rule mset_eq_length)
qed

lemma length_daydelta_of:
  "sorting_algorithm kind \<Longrightarrow> length (daydelta_of kind g) = length g"
  by (simp add: daydelta_of_def Let_def length_shift_diff length_sorted)

lemma daydelta_step_columns:
  assumes "sorting_algorithm kind"
  shows "set (columns (daydelta_step kind df i))
     = (if get_subdf kind df i = [] then set (columns df)
        else insert ''daydelta'' (set (columns df)))"
proof -
  have "daydelta_of kind (get_subdf kind df i) = [] \<longleftrightarrow> get_subdf kind df i = []"
    using length_daydelta_of [OF assms, of "get_subdf kind df i"] by (metis length_0_conv)
  then show ?thesis
    by (simp add: daydelta_step_def Let_def loc_fold_columns)
qed

lemma daydelta_fold_columns:
  assumes "sorting_algorithm kind"
  shows "set (columns df) \<subseteq> set (columns (foldl (daydelta_step kind) df ks))
    \<and> set (columns (foldl (daydelta_step kind) df ks)) \<subseteq> insert ''daydelta'' (set (columns df))"
proof (induction ks arbitrary: df)
  case Nil
  then show ?case by auto
next
  case (Cons k ks)
  from Cons.IH [of "daydelta_step kind df k"] show ?case
    by (auto simp: daydelta_step_columns [OF assms] split: if_splits)
qed

lemma unique_Cons: "unique (x # xs) = x # unique_acc [x] xs"
  by (simp add: unique_def)

lemma daydelta_column_created:
  assumes "sorting_algorithm kind" and "rows df \<noteq> []"
  shows "''daydelta'' \<in> set (columns (foldl (daydelta_step kind) df (unique (map keyword (rows df)))))"
proof -
  from assms(2) obtain r rs where rs: "rows df = r # rs"
    by (cases "rows df") auto
  have "r \<in> set (get_subdf kind df (keyword r))"
    by (simp add: set_get_subdf [OF assms(1)] rs)
  then have "get_subdf kind df (keyword r) \<noteq> []" by auto
  then have "''daydelta'' \<in> set (columns (daydelta_step kind df (keyword r)))"
    by (simp add: daydelta_step_columns [OF assms(1)])
  then show ?thesis
    using daydelta_fold_columns [OF assms(1), of "daydelta_step kind df (keyword r)"
        "unique_acc [keyword r] (map keyword rs)"]
    by (auto simp: rs unique_Cons)
qed
section \<open>Groups of few transactions\<close>

text \<open>The effect of the inner loop on one line.\<close>

lemma rows_loc_set:
  "rows (loc_set_daydelta df i v) = map (\<lambda>r. if label r = i then r\<lparr>daydelta := v\<rparr> else r) (rows df)"
  by (simp add: loc_set_daydelta_def)

lemma loc_fold_rows:
  "rows (foldl (\<lambda>df s. loc_set_daydelta df (label s) (daydelta s)) df sub)
     = map (\<lambda>r. foldl (\<lambda>r s. if label r = label s then r\<lparr>daydelta := daydelta s\<rparr> else r) r sub)
         (rows df)"
proof (induction sub arbitrary: df)
  case Nil
  then show ?case by simp
next
  case (Cons s sub)
  show ?case
    by (simp add: Cons.IH rows_loc_set)
qed

lemma written_fields:
  "label (foldl (\<lambda>r s. if label r = label s then r\<lparr>daydelta := daydelta s\<rparr> else r) r sub) = label r
   \<and> keyword (foldl (\<lambda>r s. if label r = label s then r\<lparr>daydelta := daydelta s\<rparr> else r) r sub)
       = keyword r"
  by (induction sub arbitrary: r) simp_all

lemma not_written:
  "label r \<notin> label ` set sub
     \<Longrightarrow> foldl (\<lambda>r s. if label r = label s then r\<lparr>daydelta := daydelta s\<rparr> else r) r sub = r"
  by (induction sub arbitrary: r) simp_all

lemma written_once:
  assumes "label r = label s" and "label s \<notin> label ` set sub"
  shows "foldl (\<lambda>r s. if label r = label s then r\<lparr>daydelta := daydelta s\<rparr> else r) r (s # sub)
     = r\<lparr>daydelta := daydelta s\<rparr>"
  using assms by (simp add: not_written)


lemma rows_daydelta_step:
  "rows (daydelta_step kind df k)
     = map (\<lambda>r. foldl (\<lambda>r s. if label r = label s then r\<lparr>daydelta := daydelta s\<rparr> else r) r
              (daydelta_of kind (get_subdf kind df k))) (rows df)"
  by (simp add: daydelta_step_def Let_def loc_fold_rows)

lemma step_keeps_fields:
  "map label (rows (daydelta_step kind df k)) = map label (rows df)
   \<and> map keyword (rows (daydelta_step kind df k)) = map keyword (rows df)"
  by (simp add: rows_daydelta_step written_fields)

lemma zip_labels:
  "length ds = length ps
     \<Longrightarrow> map label (map (\<lambda>(r, dd). r\<lparr>daydelta := dd\<rparr>) (zip ps ds)) = map label ps"
  by (induction ps ds rule: list_induct2') simp_all

lemma daydelta_of_labels:
  "map label (daydelta_of kind g) = map label (sort_values kind made_on g)"
  unfolding daydelta_of_def Let_def by (rule zip_labels) (simp add: length_shift_diff)

lemma daydelta_of_shape:
  assumes "sorting_algorithm kind" and "g \<noteq> []"
  shows "\<exists>p ps rest. sort_values kind made_on g = p # ps
     \<and> daydelta_of kind g = p\<lparr>daydelta := None\<rparr> # rest \<and> map label rest = map label ps"
proof -
  from assms obtain p ps where p: "sort_values kind made_on g = p # ps"
    using length_sorted [OF assms(1), of made_on g] by (cases "sort_values kind made_on g") auto
  obtain rest where sub: "daydelta_of kind g = p\<lparr>daydelta := None\<rparr> # rest"
    by (simp add: daydelta_of_def Let_def p)
  from daydelta_of_labels [of kind g] have "map label rest = map label ps"
    by (simp add: p sub)
  with p sub show ?thesis by blast
qed

lemma group_labels:
  assumes "sorting_algorithm kind" and "distinct (map label (rows df))"
  shows "distinct (map label (sort_values kind made_on (get_subdf kind df k)))"
    and "set (sort_values kind made_on (get_subdf kind df k)) = {r \<in> set (rows df). keyword r = k}"
proof -
  let ?g = "get_subdf kind df k" and ?p = "sort_values kind made_on (get_subdf kind df k)"
  from assms(1) have p: "mset ?p = mset ?g"
    by (simp add: sorting_algorithm_def sort_values_def)
  have "mset (map label ?p) = mset (map label (filter (\<lambda>r. keyword r = k) (rows df)))"
    by (simp add: p mset_get_subdf [OF assms(1)])
  moreover from assms(2) have "distinct (map label (filter (\<lambda>r. keyword r = k) (rows df)))"
    by (rule distinct_map_filter)
  ultimately show "distinct (map label ?p)"
    by (metis mset_eq_imp_distinct_iff)
  from p have "set ?p = set ?g"
    by (rule mset_eq_setD)
  then show "set ?p = {r \<in> set (rows df). keyword r = k}"
    by (simp add: set_get_subdf [OF assms(1)])
qed

lemma step_self:
  assumes "sorting_algorithm kind" and "distinct (map label (rows df))"
    and "k \<in> keyword ` set (rows df)"
  shows "\<exists>r \<in> set (rows (daydelta_step kind df k)). keyword r = k \<and> daydelta r = None"
proof -
  from assms(3) have "get_subdf kind df k \<noteq> []"
    using set_get_subdf [OF assms(1), of df k] by auto
  from daydelta_of_shape [OF assms(1) this] obtain p ps rest
    where p: "sort_values kind made_on (get_subdf kind df k) = p # ps"
      and sub: "daydelta_of kind (get_subdf kind df k) = p\<lparr>daydelta := None\<rparr> # rest"
      and rest: "map label rest = map label ps"
    by blast
  from group_labels [OF assms(1,2), of k] p have "label p \<notin> set (map label ps)"
    and mem: "p \<in> set (rows df)" and kw: "keyword p = k"
    by auto
  then have "label p \<notin> label ` set rest"
    by (simp flip: rest)
  then have "foldl (\<lambda>r s. if label r = label s then r\<lparr>daydelta := daydelta s\<rparr> else r) p
      (p\<lparr>daydelta := None\<rparr> # rest) = p\<lparr>daydelta := daydelta (p\<lparr>daydelta := None\<rparr>)\<rparr>"
    by (intro written_once) simp_all
  then have "foldl (\<lambda>r s. if label r = label s then r\<lparr>daydelta := daydelta s\<rparr> else r) p
      (p\<lparr>daydelta := None\<rparr> # rest) = p\<lparr>daydelta := None\<rparr>"
    by simp
  with mem have "p\<lparr>daydelta := None\<rparr> \<in> set (rows (daydelta_step kind df k))"
    by (force simp: rows_daydelta_step sub)
  with kw show ?thesis
    by (intro bexI [of _ "p\<lparr>daydelta := None\<rparr>"]) simp_all
qed

lemma step_other:
  assumes "sorting_algorithm kind" and "distinct (map label (rows df))"
    and "r \<in> set (rows df)" and "keyword r \<noteq> k"
  shows "r \<in> set (rows (daydelta_step kind df k))"
proof -
  have "label r \<notin> label ` set (daydelta_of kind (get_subdf kind df k))"
  proof
    assume "label r \<in> label ` set (daydelta_of kind (get_subdf kind df k))"
    then have "label r \<in> set (map label (daydelta_of kind (get_subdf kind df k)))"
      by simp
    also have "\<dots> = set (map label (sort_values kind made_on (get_subdf kind df k)))"
      by (simp only: daydelta_of_labels)
    finally obtain q where "q \<in> set (rows df)" "keyword q = k" "label q = label r"
      using group_labels(2) [OF assms(1,2), of k] by auto
    with assms(2,3) have "q = r"
      by (auto simp: distinct_map dest: inj_onD)
    with \<open>keyword q = k\<close> assms(4) show False by simp
  qed
  then have "foldl (\<lambda>r s. if label r = label s then r\<lparr>daydelta := daydelta s\<rparr> else r) r
      (daydelta_of kind (get_subdf kind df k)) = r"
    by (rule not_written)
  with assms(3) show ?thesis
    by (force simp: rows_daydelta_step)
qed


lemma fold_keeps_fields:
  "map label (rows (foldl (daydelta_step kind) df ks)) = map label (rows df)
   \<and> map keyword (rows (foldl (daydelta_step kind) df ks)) = map keyword (rows df)"
  by (induction ks arbitrary: df) (simp_all add: step_keeps_fields)

lemma fold_keeps_undefined:
  assumes "sorting_algorithm kind"
  shows "distinct (map label (rows df)) \<Longrightarrow> distinct ks
    \<Longrightarrow> \<forall>k \<in> D. \<exists>r \<in> set (rows df). keyword r = k \<and> daydelta r = None
    \<Longrightarrow> D \<inter> set ks = {}
    \<Longrightarrow> \<forall>k \<in> D \<union> (set ks \<inter> keyword ` set (rows df)).
          \<exists>r \<in> set (rows (foldl (daydelta_step kind) df ks)). keyword r = k \<and> daydelta r = None"
proof (induction ks arbitrary: df D)
  case Nil
  then show ?case by simp
next
  case (Cons k ks)
  let ?df = "daydelta_step kind df k"
  let ?D = "D \<union> ({k} \<inter> keyword ` set (rows df))"
  have labels: "distinct (map label (rows ?df))"
    using Cons.prems(1) by (simp add: step_keeps_fields)
  have "set (map keyword (rows ?df)) = set (map keyword (rows df))"
    by (simp only: step_keeps_fields)
  then have kws: "keyword ` set (rows ?df) = keyword ` set (rows df)"
    by simp
  have settled: "\<forall>k' \<in> ?D. \<exists>r \<in> set (rows ?df). keyword r = k' \<and> daydelta r = None"
  proof
    fix k' assume "k' \<in> ?D"
    then consider "k' \<in> D" | "k' = k" "k \<in> keyword ` set (rows df)"
      by auto
    then show "\<exists>r \<in> set (rows ?df). keyword r = k' \<and> daydelta r = None"
    proof cases
      case 1
      with Cons.prems(3,4) obtain r where r: "r \<in> set (rows df)" "keyword r = k'" "daydelta r = None"
        and "k' \<noteq> k"
        by auto
      then have "r \<in> set (rows ?df)"
        by (intro step_other [OF assms Cons.prems(1)]) simp_all
      with r show ?thesis by blast
    next
      case 2
      then show ?thesis
        using step_self [OF assms Cons.prems(1), of k] by simp
    qed
  qed
  have "?D \<inter> set ks = {}"
    using Cons.prems(2,4) by auto
  from Cons.IH [OF labels _ settled this] Cons.prems(2)
  have "\<forall>k' \<in> ?D \<union> (set ks \<inter> keyword ` set (rows ?df)).
      \<exists>r \<in> set (rows (foldl (daydelta_step kind) ?df ks)). keyword r = k' \<and> daydelta r = None"
    by simp
  then show ?case
    by (auto simp: kws)
qed

lemma prepared_labels:
  assumes "clean_description (clean_dataframe txns) = Inr df"
  shows "distinct (map label (rows df))"
proof -
  from assms have "rows df = map (\<lambda>r. r\<lparr>clean_desc := clean_text (original_description r),
      keyword := takeWhile (\<lambda>c. c \<noteq> CHR '' '') (clean_text (original_description r))
         @ '' '' @ type_col r\<rparr>) (map new_row (enumerate 0 txns))"
    by (auto simp: clean_description_total clean_dataframe_def)
  then have "map label (rows df) = map fst (enumerate 0 txns)"
    by (simp add: new_row_def comp_def)
  then show ?thesis
    by (simp add: map_fst_enumerate)
qed

lemma undefined_delta_in_group:
  assumes "sorting_algorithm kind" and "with_deltas kind txns = Inr df"
    and "k \<in> keyword ` set (rows df)"
  shows "None \<in> set (map daydelta_int (get_subdf kind df k))"
proof -
  obtain df2 where df2: "clean_description (clean_dataframe txns) = Inr df2"
    by (simp add: clean_description_total)
  let ?df1 = "foldl (daydelta_step kind) df2 (unique (map keyword (rows df2)))"
  from assms(2) have df: "rows df = map (\<lambda>r. r\<lparr>daydelta_int := daydelta r\<rparr>) (rows ?df1)"
    by (auto simp: with_deltas_def df2 calculate_daydelta_def Let_def split: if_splits)
  have "set (map keyword (rows ?df1)) = set (map keyword (rows df2))"
    by (simp only: fold_keeps_fields)
  with assms(3) have "k \<in> set (unique (map keyword (rows df2))) \<inter> keyword ` set (rows df2)"
    by (auto simp: df set_unique)
  with fold_keeps_undefined [OF assms(1) prepared_labels [OF df2] distinct_unique, of "{}"]
  obtain r where r: "r \<in> set (rows ?df1)" "keyword r = k" "daydelta r = None"
    by auto
  from r(1) have "r\<lparr>daydelta_int := daydelta r\<rparr> \<in> set (rows df)"
    unfolding df set_map by (rule imageI)
  with r(2) have "r\<lparr>daydelta_int := daydelta r\<rparr> \<in> set (get_subdf kind df k)"
    by (simp add: set_get_subdf [OF assms(1)])
  then have "daydelta_int (r\<lparr>daydelta_int := daydelta r\<rparr>)
      \<in> daydelta_int ` set (get_subdf kind df k)"
    by (rule imageI)
  with r(3) show ?thesis
    by simp
qed

text \<open>
  Claim C2, as amended.  For every list of transactions and every sorting algorithm, a
  group of exactly two transactions is classified as not recurring with the default
  tolerance 0.20 (as with every other tolerance \<open>t\<close>), and its keyword is not among the
  accepted ones: one of its two deltas (that of the chronologically first transaction) is
  undefined, both deltas are inside the window, and the undefined one is inside no band.
\<close>

theorem two_transactions_not_recurring:
  assumes "sorting_algorithm kind" and "with_deltas kind txns = Inr df"
    and "length (filter (\<lambda>r. keyword r = k) (rows df)) = 2"
  shows "\<not> is_recurring (get_subdf kind df k) t \<and> k \<notin> set (accepted_groups kind txns)"
proof -
  have "mset (get_subdf kind df k) = mset (filter (\<lambda>r. keyword r = k) (rows df))"
    by (rule mset_get_subdf [OF assms(1)])
  then have "length (get_subdf kind df k) = length (filter (\<lambda>r. keyword r = k) (rows df))"
    by (rule mset_eq_length)
  with assms(3) have two: "length (get_subdf kind df k) = 2"
    by simp
  from assms(3) have "filter (\<lambda>r. keyword r = k) (rows df) \<noteq> []"
    by auto
  then have "k \<in> keyword ` set (rows df)"
    by (auto simp: filter_empty_conv)
  from undefined_delta_in_group [OF assms(1,2) this] two
  have "None \<in> set (tail3 (map daydelta_int (get_subdf kind df k)))"
    by (simp add: tail3_def)
  then have "\<not> is_recurring (get_subdf kind df k) t" for t
    by (rule window_with_nan)
  then show ?thesis
    by (simp add: accepted_groups_def assms(2))
qed

theorem two_transactions_not_recurring_witness:
  "sorting_algorithm insertion_sort \<and>
   (case with_deltas insertion_sort same_day of
      Inl e \<Rightarrow> False
    | Inr df \<Rightarrow>
        length (filter (\<lambda>r. keyword r = ''spotify debit'') (rows df)) = 2
        \<and> \<not> is_recurring (get_subdf insertion_sort df ''spotify debit'') default_tolerance
        \<and> ''spotify debit'' \<notin> set (accepted_groups insertion_sort same_day))"
proof -
  have "case with_deltas insertion_sort same_day of Inl e \<Rightarrow> False | Inr df \<Rightarrow> True"
    by code_simp
  then obtain df where df: "with_deltas insertion_sort same_day = Inr df"
    by (cases "with_deltas insertion_sort same_day") simp_all
  have "length (filter (\<lambda>r. keyword r = ''spotify debit'')
      (rows (projr (with_deltas insertion_sort same_day)))) = 2"
    by code_simp
  then have two: "length (filter (\<lambda>r. keyword r = ''spotify debit'') (rows df)) = 2"
    by (simp add: df)
  from two_transactions_not_recurring [OF insertion_sort_sorts df two, of default_tolerance]
    two insertion_sort_sorts
  show ?thesis
    by (simp add: df)
qed

text \<open>
  Claim C2 as stated fails: two payments thirty-one days apart, one positive delta, are
  not classified as recurring.
\<close>

theorem two_transactions_counterexample:
  "case with_deltas insertion_sort two_payments of
     Inl e \<Rightarrow> False
   | Inr df \<Rightarrow>
       map daydelta_int (get_subdf insertion_sort df ''spotify debit'') = [None, Some 31]
       \<and> \<not> is_recurring (get_subdf insertion_sort df ''spotify debit'') default_tolerance"
  by code_simp

section \<open>Runs without an accepted group\<close>

lemma no_group_accepted:
  "\<forall>k \<in> set ks. \<not> is_recurring (get_subdf kind df k) default_tolerance
     \<Longrightarrow> foldl (recurring_step kind) df ks = df"
  by (induction ks) (simp_all add: recurring_step_def)

text \<open>A group of one line writes an undefined delta only.\<close>

lemma written_undefined:
  "\<forall>s \<in> set sub. daydelta s = None \<Longrightarrow> daydelta r = None
     \<Longrightarrow> daydelta (foldl (\<lambda>r s. if label r = label s then r\<lparr>daydelta := daydelta s\<rparr> else r) r sub)
          = None"
  by (induction sub arbitrary: r) simp_all

lemma single_line_deltas:
  assumes "sorting_algorithm kind" and "length g \<le> 1"
  shows "\<forall>s \<in> set (daydelta_of kind g). daydelta s = None"
proof -
  from assms have "length (sort_values kind made_on g) \<le> 1"
    by (simp add: length_sorted)
  then consider "sort_values kind made_on g = []" | p where "sort_values kind made_on g = [p]"
    by (cases "sort_values kind made_on g") auto
  then show ?thesis
    by cases (simp_all add: daydelta_of_def Let_def)
qed

lemma length_get_subdf:
  assumes "sorting_algorithm kind"
  shows "length (get_subdf kind df k) = length (filter (\<lambda>x. x = k) (map keyword (rows df)))"
proof -
  have "length (get_subdf kind df k) = length (filter (\<lambda>r. keyword r = k) (rows df))"
    using mset_get_subdf [OF assms, of df k] by (rule mset_eq_length)
  then show ?thesis
    by (simp add: filter_map comp_def)
qed

lemma distinct_filter_length: "distinct xs \<Longrightarrow> length (filter (\<lambda>x. x = k) xs) \<le> 1"
  by (induction xs) (auto simp: filter_empty_conv)

lemma step_all_undefined:
  assumes "sorting_algorithm kind" and "distinct (map keyword (rows df))"
    and "\<forall>r \<in> set (rows df). daydelta r = None"
  shows "\<forall>r \<in> set (rows (daydelta_step kind df k)). daydelta r = None"
proof -
  have "length (get_subdf kind df k) \<le> 1"
    unfolding length_get_subdf [OF assms(1)] using assms(2) by (rule distinct_filter_length)
  then have "\<forall>s \<in> set (daydelta_of kind (get_subdf kind df k)). daydelta s = None"
    by (rule single_line_deltas [OF assms(1)])
  with assms(3) show ?thesis
    by (auto simp: rows_daydelta_step written_undefined)
qed

lemma fold_all_undefined:
  assumes "sorting_algorithm kind"
  shows "distinct (map keyword (rows df)) \<Longrightarrow> \<forall>r \<in> set (rows df). daydelta r = None
    \<Longrightarrow> \<forall>r \<in> set (rows (foldl (daydelta_step kind) df ks)). daydelta r = None"
proof (induction ks arbitrary: df)
  case Nil
  then show ?case by simp
next
  case (Cons k ks)
  have "distinct (map keyword (rows (daydelta_step kind df k)))"
    using Cons.prems(1) by (simp add: step_keeps_fields)
  moreover have "\<forall>r \<in> set (rows (daydelta_step kind df k)). daydelta r = None"
    using Cons.prems by (intro step_all_undefined [OF assms])
  ultimately show ?case
    using Cons.IH by simp
qed

text \<open>A group of two or more lines writes a defined delta, which later groups leave alone.\<close>

lemma step_self_defined:
  assumes "sorting_algorithm kind" and "distinct (map label (rows df))"
    and "2 \<le> length (filter (\<lambda>x. x = k) (map keyword (rows df)))"
  shows "\<exists>r \<in> set (rows (daydelta_step kind df k)). keyword r = k \<and> daydelta r \<noteq> None"
proof -
  let ?f = "\<lambda>r s. if label r = label s then r\<lparr>daydelta := daydelta s\<rparr> else r"
  have "2 \<le> length (sort_values kind made_on (get_subdf kind df k))"
    using assms(3) by (simp add: length_sorted [OF assms(1)] length_get_subdf [OF assms(1)])
  then obtain p q ps where p: "sort_values kind made_on (get_subdf kind df k) = p # q # ps"
    by (cases "sort_values kind made_on (get_subdf kind df k)" rule: list.exhaust)
      (auto simp: Suc_le_eq neq_Nil_conv)
  define q' where "q' = q\<lparr>daydelta := Some (made_on q - made_on p)\<rparr>"
  obtain rest where sub: "daydelta_of kind (get_subdf kind df k) = p\<lparr>daydelta := None\<rparr> # q' # rest"
    by (simp add: daydelta_of_def Let_def p q'_def)
  from daydelta_of_labels [of kind "get_subdf kind df k"] have rest: "map label rest = map label ps"
    by (simp add: p sub q'_def)
  from group_labels [OF assms(1,2), of k] p have "label q \<noteq> label p"
    and "label q \<notin> set (map label ps)" and mem: "q \<in> set (rows df)" and kw: "keyword q = k"
    by auto
  then have fresh: "label q' \<notin> label ` set rest" and same: "label q = label q'"
    by (simp_all add: q'_def flip: rest)
  have "foldl ?f q (q' # rest) = q\<lparr>daydelta := daydelta q'\<rparr>"
    by (rule written_once [OF same fresh])
  with \<open>label q \<noteq> label p\<close> have "foldl ?f q (daydelta_of kind (get_subdf kind df k))
      = q\<lparr>daydelta := daydelta q'\<rparr>"
    by (simp add: sub)
  with mem have "q\<lparr>daydelta := daydelta q'\<rparr> \<in> set (rows (daydelta_step kind df k))"
    by (force simp: rows_daydelta_step)
  with kw show ?thesis
    by (intro bexI [of _ "q\<lparr>daydelta := daydelta q'\<rparr>"]) (simp_all add: q'_def)
qed

lemma fold_keeps_defined:
  assumes "sorting_algorithm kind"
  shows "distinct (map label (rows df)) \<Longrightarrow> distinct ks
    \<Longrightarrow> (\<exists>r \<in> set (rows df). keyword r \<notin> set ks \<and> daydelta r \<noteq> None)
        \<or> (\<exists>k \<in> set ks. 2 \<le> length (filter (\<lambda>x. x = k) (map keyword (rows df))))
    \<Longrightarrow> \<exists>r \<in> set (rows (foldl (daydelta_step kind) df ks)). daydelta r \<noteq> None"
proof (induction ks arbitrary: df)
  case Nil
  then show ?case by auto
next
  case (Cons k ks)
  let ?df = "daydelta_step kind df k"
  have labels: "distinct (map label (rows ?df))"
    using Cons.prems(1) by (simp add: step_keeps_fields)
  have kws: "map keyword (rows ?df) = map keyword (rows df)"
    by (simp add: step_keeps_fields)
  from Cons.prems(2) have ks: "distinct ks" and k: "k \<notin> set ks"
    by simp_all
  from Cons.prems(3) consider
      r where "r \<in> set (rows df)" "keyword r \<notin> set (k # ks)" "daydelta r \<noteq> None"
    | "2 \<le> length (filter (\<lambda>x. x = k) (map keyword (rows df)))"
    | k' where "k' \<in> set ks" "2 \<le> length (filter (\<lambda>x. x = k') (map keyword (rows df)))"
    by auto
  then have "(\<exists>r \<in> set (rows ?df). keyword r \<notin> set ks \<and> daydelta r \<noteq> None)
      \<or> (\<exists>k \<in> set ks. 2 \<le> length (filter (\<lambda>x. x = k) (map keyword (rows ?df))))"
  proof cases
    case 1
    then have "r \<in> set (rows ?df)"
      by (intro step_other [OF assms Cons.prems(1)]) simp_all
    with 1 show ?thesis by auto
  next
    case 2
    from step_self_defined [OF assms Cons.prems(1) 2] k show ?thesis
      by auto
  next
    case 3
    then show ?thesis
      unfolding kws by auto
  qed
  from Cons.IH [OF labels ks this] show ?case
    by simp
qed

lemma repeated_keyword:
  "\<not> distinct xs \<Longrightarrow> \<exists>k \<in> set xs. 2 \<le> length (filter (\<lambda>x. x = k) xs)"
proof (induction xs)
  case Nil
  then show ?case by simp
next
  case (Cons x xs)
  show ?case
  proof (cases "x \<in> set xs")
    case True
    then have "filter (\<lambda>y. y = x) xs \<noteq> []"
      by (auto simp: filter_empty_conv)
    then have "1 \<le> length (filter (\<lambda>y. y = x) xs)"
      by (cases "filter (\<lambda>y. y = x) xs") simp_all
    then show ?thesis
      by (intro bexI [of _ x]) simp_all
  next
    case False
    with Cons.prems have "\<not> distinct xs" by simp
    from Cons.IH [OF this] obtain k where "k \<in> set xs" "2 \<le> length (filter (\<lambda>x. x = k) xs)"
      by blast
    then show ?thesis
      by (intro bexI [of _ k]) auto
  qed
qed

lemma prepared_undefined:
  assumes "clean_description (clean_dataframe txns) = Inr df"
  shows "\<forall>r \<in> set (rows df). daydelta r = None"
  using assms by (auto simp: clean_description_total clean_dataframe_def new_row_def)

text \<open>
  The interval step on a non-empty table fails exactly when no keyword occurs twice.
\<close>

lemma calculate_daydelta_nonempty:
  assumes "sorting_algorithm kind" and "clean_description (clean_dataframe txns) = Inr df"
    and "txns \<noteq> []"
  shows "distinct (map keyword (rows df)) \<Longrightarrow> calculate_daydelta kind df = Inl TypeError"
    and "\<not> distinct (map keyword (rows df)) \<Longrightarrow>
      \<exists>df3. calculate_daydelta kind df = Inr df3 \<and> ''recurring'' \<notin> set (columns df3)"
proof -
  let ?df1 = "foldl (daydelta_step kind) df (unique (map keyword (rows df)))"
  from prepared_frame(1) [OF assms(2)] assms(3) have rows: "rows df \<noteq> []"
    by auto
  have created: "''daydelta'' \<in> set (columns ?df1)"
    by (rule daydelta_column_created [OF assms(1) rows])
  have cols: "set (columns ?df1) \<subseteq> insert ''daydelta'' (set (columns df))"
    using daydelta_fold_columns [OF assms(1), of df "unique (map keyword (rows df))"] by simp
  {
    assume "distinct (map keyword (rows df))"
    then have "\<forall>r \<in> set (rows ?df1). daydelta r = None"
      using prepared_undefined [OF assms(2)] by (intro fold_all_undefined [OF assms(1)])
    with created show "calculate_daydelta kind df = Inl TypeError"
      by (simp add: calculate_daydelta_def Let_def list_all_iff)
  }
  {
    assume "\<not> distinct (map keyword (rows df))"
    then obtain k where "k \<in> set (map keyword (rows df))"
      "2 \<le> length (filter (\<lambda>x. x = k) (map keyword (rows df)))"
      using repeated_keyword by blast
    then have "\<exists>k \<in> set (unique (map keyword (rows df))).
        2 \<le> length (filter (\<lambda>x. x = k) (map keyword (rows df)))"
      unfolding set_unique by blast
    then have "\<exists>r \<in> set (rows ?df1). daydelta r \<noteq> None"
      by (intro fold_keeps_defined [OF assms(1) prepared_labels [OF assms(2)] distinct_unique]) simp
    then have "\<not> list_all (\<lambda>r. daydelta r = None) (rows ?df1)"
      by (simp add: list_all_iff)
    with created cols prepared_frame(2) [OF assms(2)]
    show "\<exists>df3. calculate_daydelta kind df = Inr df3 \<and> ''recurring'' \<notin> set (columns df3)"
      by (auto simp: calculate_daydelta_def Let_def set_add_column)
  }
qed

text \<open>
  Claim C10.  For every non-empty list of transactions in which no group passes the
  recurrence test, under every sorting algorithm, the pipeline returns no summary list but
  fails.  When some keyword occurs on two lines or more, it fails with
  \<^verbatim>\<open>KeyError: 'recurring'\<close>, raised by the fill step, because the marker column is created
  only by the assignment to an accepted group.  When every keyword occurs on one line only,
  it fails before any group is tested, with the \<^verbatim>\<open>TypeError\<close> of \<^verbatim>\<open>pd.to_timedelta\<close> on a
  delta column without a single difference.
\<close>

theorem no_accepted_group_fails:
  assumes "sorting_algorithm kind" and "txns \<noteq> []" and "accepted_groups kind txns = []"
  shows "get_recurring_transactions kind txns
     = Inl (if distinct (keywords_of txns) then TypeError else KeyError ''recurring'')"
proof -
  obtain df2 where df2: "clean_description (clean_dataframe txns) = Inr df2"
    by (simp add: clean_description_total)
  then have kws: "keywords_of txns = map keyword (rows df2)"
    by (simp add: keywords_of_def)
  show ?thesis
  proof (cases "distinct (map keyword (rows df2))")
    case True
    from calculate_daydelta_nonempty(1) [OF assms(1) df2 assms(2) True] True show ?thesis
      by (simp add: get_recurring_transactions_def df2 kws)
  next
    case False
    from calculate_daydelta_nonempty(2) [OF assms(1) df2 assms(2) False] obtain df3
      where df3: "calculate_daydelta kind df2 = Inr df3"
        and absent: "''recurring'' \<notin> set (columns df3)"
      by blast
    from assms(3) have "\<forall>k \<in> set (unique (map keyword (rows df3))).
        \<not> is_recurring (get_subdf kind df3 k) default_tolerance"
      by (simp add: accepted_groups_def with_deltas_def df2 df3 filter_empty_conv)
    then have "foldl (recurring_step kind) df3 (unique (map keyword (rows df3))) = df3"
      by (rule no_group_accepted)
    with absent have "calculate_recurring kind df3 = Inl (KeyError ''recurring'')"
      by (simp add: calculate_recurring_def)
    with False show ?thesis
      by (simp add: get_recurring_transactions_def df2 df3 kws)
  qed
qed

theorem no_accepted_group_fails_witness:
  "sorting_algorithm insertion_sort
   \<and> two_payments \<noteq> [] \<and> accepted_groups insertion_sort two_payments = []
   \<and> keywords_of two_payments = [''spotify debit'', ''spotify debit'']
   \<and> get_recurring_transactions insertion_sort two_payments = Inl (KeyError ''recurring'')
   \<and> [txn 0 ''SPOTIFY'' 999 False] \<noteq> []
   \<and> accepted_groups insertion_sort [txn 0 ''SPOTIFY'' 999 False] = []
   \<and> keywords_of [txn 0 ''SPOTIFY'' 999 False] = [''spotify debit'']
   \<and> get_recurring_transactions insertion_sort [txn 0 ''SPOTIFY'' 999 False] = Inl TypeError"
proof -
  have a: "accepted_groups insertion_sort two_payments = []"
    by code_simp
  have n: "two_payments \<noteq> []"
    by (simp add: two_payments_def)
  have k: "keywords_of two_payments = [''spotify debit'', ''spotify debit'']"
    by code_simp
  have a1: "accepted_groups insertion_sort [txn 0 ''SPOTIFY'' 999 False] = []"
    by code_simp
  have k1: "keywords_of [txn 0 ''SPOTIFY'' 999 False] = [''spotify debit'']"
    by code_simp
  show ?thesis
    using no_accepted_group_fails [OF insertion_sort_sorts n a]
      no_accepted_group_fails [OF insertion_sort_sorts _ a1]
      insertion_sort_sorts n a a1
    by (simp add: k k1)
qed
section \<open>Properties of the description cleaning\<close>

lemma apostrophe_not_word: "\<not> word_char apostrophe"
  by (simp add: word_char_def latin1_word_def apostrophe_def)

lemma digit_word_char: "digit c \<Longrightarrow> word_char c"
  by (auto simp: digit_def word_char_def)

lemma codes_words: "lit \<in> set codes \<Longrightarrow> lit \<noteq> [] \<and> (\<forall>c \<in> set lit. word_char c)"
  by (auto simp: codes_def word_char_def)

lemma group_match_append:
  "group_match (as @ bs) s = (case group_match as s of None \<Rightarrow> group_match bs s | Some n \<Rightarrow> Some n)"
  by (induction as) (simp_all split: option.splits)

text \<open>A maximal run of word characters \<open>w\<close> in front of the rest \<open>r\<close> of the text.\<close>

lemma digits_on_run:
  assumes "w \<noteq> []" and "\<forall>c \<in> set w. word_char c" and "\<not> is_word (next_char r)"
  shows "alt_then_boundary Digits2 (w @ r)
     = (if length w = 2 \<and> (\<forall>c \<in> set w. digit c) then Some (length w) else None)"
proof -
  consider a where "w = [a]" | a b where "w = [a, b]" | a b c v where "w = a # b # c # v"
    using assms(1) by (metis list.exhaust)
  then show ?thesis
  proof cases
    case 1
    with assms(3) show ?thesis
      by (cases r) (auto simp: alt_then_boundary_def is_word_def next_char_def
          dest: digit_word_char)
  next
    case 2
    with assms(2,3) show ?thesis
      by (auto simp: alt_then_boundary_def word_boundary_def is_word_def)
  next
    case 3
    with assms(2) show ?thesis
      by (auto simp: alt_then_boundary_def word_boundary_def is_word_def next_char_def)
  qed
qed

lemma literal_on_run:
  assumes "w \<noteq> []" and "\<forall>c \<in> set w. word_char c" and "\<not> is_word (next_char r)"
    and "lit \<noteq> []" and "\<forall>c \<in> set lit. word_char c"
  shows "alt_then_boundary (Literal lit) (w @ r) = (if w = lit then Some (length w) else None)"
proof (cases "prefix lit (w @ r)")
  case False
  then have "w \<noteq> lit" by auto
  with False show ?thesis by (simp add: alt_then_boundary_def)
next
  case True
  have "prefix lit w"
  proof (rule ccontr)
    assume "\<not> prefix lit w"
    with True obtain us where us: "lit = w @ us" "prefix us r" "us \<noteq> []"
      by (auto simp: prefix_append)
    then obtain c r' where "r = c # r'" "c \<in> set lit"
      by (cases us; cases r) auto
    with assms(3,5) show False
      by (auto simp: is_word_def next_char_def)
  qed
  then obtain v where v: "w = lit @ v"
    by (auto simp: prefix_def)
  have last: "is_word (Some (last lit))"
    using assms(4,5) by (simp add: is_word_def)
  show ?thesis
  proof (cases v)
    case Nil
    with v True last assms(3) show ?thesis
      by (simp add: alt_then_boundary_def word_boundary_def)
  next
    case (Cons c v')
    with v assms(2) have "is_word (next_char (v @ r))"
      by (simp add: is_word_def next_char_def)
    with v True last Cons show ?thesis
      by (simp add: alt_then_boundary_def word_boundary_def)
  qed
qed

lemma literals_on_run:
  assumes "w \<noteq> []" and "\<forall>c \<in> set w. word_char c" and "\<not> is_word (next_char r)"
    and "\<forall>lit \<in> set lits. lit \<noteq> [] \<and> (\<forall>c \<in> set lit. word_char c)"
  shows "group_match (map Literal lits) (w @ r) = (if w \<in> set lits then Some (length w) else None)"
  using assms(4)
  by (induction lits) (auto simp: literal_on_run [OF assms(1-3)])

lemma apostrophe_on_run:
  assumes "w \<noteq> []" and "\<forall>c \<in> set w. word_char c"
  shows "alt_then_boundary (Literal [apostrophe]) (w @ r) = None"
  using assms apostrophe_not_word
  by (cases w) (auto simp: alt_then_boundary_def)

lemma match_on_run:
  assumes "\<not> is_word left" and "w \<noteq> []" and "\<forall>c \<in> set w. word_char c"
    and "\<not> is_word (next_char r)"
  shows "match_here left (w @ r) = (if noise_word w then Some (length w) else None)"
proof -
  from assms(2,3) have "is_word (next_char (w @ r))"
    by (cases w) (simp_all add: is_word_def next_char_def)
  with assms(1) have "match_here left (w @ r) = group_match date_pattern (w @ r)"
    by (simp add: match_here_def word_boundary_def)
  also have "\<dots> = (if noise_word w then Some (length w) else None)"
    using codes_words
    by (simp add: date_pattern_def group_match_append digits_on_run [OF assms(2-4)]
        literals_on_run [OF assms(2-4)] apostrophe_on_run [OF assms(2,3)] noise_word_def)
  finally show ?thesis .
qed

lemma inside_run:
  assumes "word_char a" and "\<forall>c \<in> set v. word_char c"
  shows "sub_date_pattern (Some a) (v @ r) = v @ sub_date_pattern (Some (last (a # v))) r"
  using assms
proof (induction v arbitrary: a)
  case Nil
  then show ?case by simp
next
  case (Cons c v)
  then have "match_here (Some a) ((c # v) @ r) = None"
    by (simp add: match_here_def word_boundary_def is_word_def next_char_def)
  with Cons show ?case by simp
qed

lemma run_removed_or_kept:
  assumes "\<not> is_word left" and "w \<noteq> []" and "\<forall>c \<in> set w. word_char c"
    and "\<not> is_word (next_char r)"
  shows "sub_date_pattern left (w @ r)
     = (if noise_word w then [] else w) @ sub_date_pattern (Some (last w)) r"
proof -
  from assms(2) obtain a v where w: "w = a # v" by (cases w) auto
  show ?thesis
  proof (cases "noise_word w")
    case True
    with match_on_run [OF assms] have "match_here left (a # v @ r) = Some (Suc (length v))"
      by (simp add: w)
    then show ?thesis
      using True by (simp add: w)
  next
    case False
    with match_on_run [OF assms] have "match_here left (a # v @ r) = None"
      by (simp add: w)
    moreover from assms(3) have "word_char a" "\<forall>c \<in> set v. word_char c"
      by (simp_all add: w)
    ultimately show ?thesis
      using False by (simp add: w inside_run)
  qed
qed


lemma digits_off_run: "\<not> word_char c \<Longrightarrow> alt_then_boundary Digits2 (c # cs) = None"
  by (cases cs) (auto simp: alt_then_boundary_def dest: digit_word_char)

lemma literals_off_run:
  assumes "\<not> word_char c"
    and "\<forall>lit \<in> set lits. lit \<noteq> [] \<and> (\<forall>a \<in> set lit. word_char a)"
  shows "group_match (map Literal lits) (c # cs) = None"
  using assms(2)
proof (induction lits)
  case Nil
  then show ?case by simp
next
  case (Cons lit lits)
  then obtain a v where "lit = a # v" "word_char a"
    by (cases lit) auto
  with assms(1) have "alt_then_boundary (Literal lit) (c # cs) = None"
    by (auto simp: alt_then_boundary_def)
  with Cons show ?case by simp
qed

lemma apostrophe_off_run:
  "alt_then_boundary (Literal [apostrophe]) (c # cs)
     = (if c = apostrophe \<and> is_word (next_char cs) then Some 1 else None)"
  using apostrophe_not_word
  by (auto simp: alt_then_boundary_def word_boundary_def is_word_def)

lemma match_off_run:
  assumes "\<not> word_char c"
  shows "match_here left (c # cs)
     = (if c = apostrophe \<and> is_word left \<and> is_word (next_char cs) then Some 1 else None)"
proof -
  have d: "alt_then_boundary Digits2 (c # cs) = None"
    by (rule digits_off_run [OF assms])
  have l: "group_match (map Literal codes) (c # cs) = None"
    using codes_words by (intro literals_off_run [OF assms]) blast
  have g: "group_match date_pattern (c # cs) = alt_then_boundary (Literal [apostrophe]) (c # cs)"
    by (simp add: date_pattern_def group_match_append d l split: option.splits)
  have b: "word_boundary left (next_char (c # cs)) = is_word left"
    using assms by (simp add: word_boundary_def is_word_def next_char_def)
  have "match_here left (c # cs)
      = (if is_word left then alt_then_boundary (Literal [apostrophe]) (c # cs) else None)"
    by (simp only: match_here_def g b)
  also have "\<dots> = (if c = apostrophe \<and> is_word left \<and> is_word (next_char cs) then Some 1 else None)"
    unfolding apostrophe_off_run by simp
  finally show ?thesis .
qed

lemma other_removed_or_kept:
  assumes "\<not> word_char c"
  shows "sub_date_pattern left (c # cs)
     = (if c = apostrophe \<and> is_word left \<and> is_word (next_char cs) then [] else [c])
         @ sub_date_pattern (Some c) cs"
  by (simp add: match_off_run [OF assms])

lemma only_removal: "subseq (sub_date_pattern left s) s"
proof (induction left s rule: sub_date_pattern.induct)
  case (1 left)
  then show ?case by simp
next
  case (2 left c cs)
  show ?case
  proof (cases "match_here left (c # cs)")
    case None
    with 2 show ?thesis by simp
  next
    case (Some n)
    with 2 have "subseq (sub_date_pattern left (c # cs)) (drop (n - 1) cs)"
      by simp
    also have "subseq (drop (n - 1) cs) cs"
      by (rule suffix_imp_subseq) (rule suffix_drop)
    also have "subseq cs (c # cs)"
      by (rule subseq_Cons') simp
    finally show ?thesis .
  qed
qed

text \<open>
  Claim C8, as amended.  For every raw description, the removal of noise goes run by run.
  A maximal run of word characters (letters, digits and the underscore, accented letters
  included; in front of it no word character, behind it none) is
  removed when it is, as a whole, a two-digit number, a month abbreviation or one of the
  codes, and is kept unchanged otherwise: a noise token inside a longer word is left
  untouched, and a description that is one such word comes out as it went in.  A character
  that is no word character is kept, except an apostrophe that stands directly between two
  word characters, which is removed; a lone apostrophe is kept.  Nothing is added or moved:
  the result is the description with characters left out.
\<close>

theorem noise_removed_by_runs:
  "(\<not> is_word left \<and> w \<noteq> [] \<and> (\<forall>c \<in> set w. word_char c) \<and> \<not> is_word (next_char r) \<longrightarrow>
      sub_date_pattern left (w @ r)
        = (if noise_word w then [] else w) @ sub_date_pattern (Some (last w)) r)
   \<and> (\<not> word_char c \<longrightarrow>
      sub_date_pattern left (c # cs)
        = (if c = apostrophe \<and> is_word left \<and> is_word (next_char cs) then [] else [c])
            @ sub_date_pattern (Some c) cs)
   \<and> ((\<forall>c \<in> set s. word_char c) \<and> \<not> noise_word s \<longrightarrow> sub_date_pattern None s = s)
   \<and> subseq (sub_date_pattern None s) s"
proof (intro conjI impI)
  assume "\<not> is_word left \<and> w \<noteq> [] \<and> (\<forall>c \<in> set w. word_char c) \<and> \<not> is_word (next_char r)"
  then show "sub_date_pattern left (w @ r)
      = (if noise_word w then [] else w) @ sub_date_pattern (Some (last w)) r"
    by (intro run_removed_or_kept) simp_all
next
  assume "\<not> word_char c"
  then show "sub_date_pattern left (c # cs)
      = (if c = apostrophe \<and> is_word left \<and> is_word (next_char cs) then [] else [c])
          @ sub_date_pattern (Some c) cs"
    by (rule other_removed_or_kept)
next
  assume s: "(\<forall>c \<in> set s. word_char c) \<and> \<not> noise_word s"
  show "sub_date_pattern None s = s"
  proof (cases "s = []")
    case True
    then show ?thesis by simp
  next
    case False
    with s have "sub_date_pattern None (s @ [])
        = (if noise_word s then [] else s) @ sub_date_pattern (Some (last s)) []"
      by (intro run_removed_or_kept) (simp_all add: is_word_def next_char_def)
    with s show ?thesis by simp
  qed
next
  show "subseq (sub_date_pattern None s) s"
    by (rule only_removal)
qed

theorem noise_removed_by_runs_witness:
  "noise_word ''CH'' \<and> \<not> noise_word ''CHURCH'' \<and> \<not> noise_word (CHR 0xC9 # ''CH'')
   \<and> sub_date_pattern None ''CH X'' = sub_date_pattern (Some CHR ''H'') '' X''
   \<and> sub_date_pattern None ''CH X'' = '' X''
   \<and> sub_date_pattern (Some CHR ''E'') (apostrophe # ''S'') = sub_date_pattern (Some apostrophe) ''S''
   \<and> sub_date_pattern None ''CHURCH'' = ''CHURCH''
   \<and> sub_date_pattern None (CHR 0xC9 # ''CH'') = CHR 0xC9 # ''CH''"
proof -
  have w: "noise_word ''CH''" "\<not> noise_word ''CHURCH''" "\<not> noise_word (CHR 0xC9 # ''CH'')"
    by (simp_all add: noise_word_def codes_def)
  have c: "\<forall>c \<in> set ''CHURCH''. word_char c" "\<forall>c \<in> set ''CH''. word_char c"
    "\<forall>c \<in> set (CHR 0xC9 # ''CH''). word_char c"
    by (simp_all add: word_char_def latin1_word_def)
  have n: "\<not> is_word None" "\<not> is_word (next_char '' X'')" "is_word (Some CHR ''E'')"
    "is_word (next_char ''S'')" "\<not> word_char apostrophe"
    by (simp_all add: is_word_def next_char_def word_char_def latin1_word_def apostrophe_def)
  have e: "sub_date_pattern (Some CHR ''H'') '' X'' = '' X''"
    by code_simp
  show ?thesis
    using noise_removed_by_runs [where left = None and w = "''CH''" and r = "'' X''"
        and c = apostrophe and cs = "''S''" and s = "''CHURCH''"]
      noise_removed_by_runs [where left = "Some CHR ''E''" and w = "''CH''" and r = "'' X''"
        and c = apostrophe and cs = "''S''" and s = "CHR 0xC9 # ''CH''"]
      w c n e
    by simp
qed

text \<open>
  Claim C8 as stated fails: the apostrophe inside the word \<^verbatim>\<open>JOE'S\<close> is removed, and a
  lone apostrophe is not.
\<close>

theorem apostrophe_counterexample:
  "sub_date_pattern None (''JOE'' @ [apostrophe] @ ''S CAFE'') = ''JOES CAFE''
   \<and> sub_date_pattern None (''A '' @ [apostrophe] @ '' B'') = ''A '' @ [apostrophe] @ '' B''"
  by code_simp

section \<open>Properties of the keyword\<close>




section \<open>Properties of the summary\<close>

lemma map_rows_list_all2:
  "map_rows f xs = Inr ys \<Longrightarrow> set xs \<subseteq> A
     \<Longrightarrow> list_all2 (\<lambda>x y. x \<in> A \<and> f x = Inr y) xs ys"
  by (induction xs arbitrary: ys) (auto split: sum.splits)

lemma average_mset:
  assumes "mset g = mset h"
  shows "average (map f g) = average (map f h)"
proof -
  have "sum_list (map f g) = sum_mset (image_mset f (mset g))"
    by (metis mset_map sum_mset_sum_list)
  also have "\<dots> = sum_list (map f h)"
    unfolding assms by (metis mset_map sum_mset_sum_list)
  finally show ?thesis
    using mset_eq_length [OF assms] by (simp add: average_def)
qed

lemma sum_list_mset:
  fixes f :: "'a \<Rightarrow> int"
  assumes "mset g = mset h"
  shows "sum_list (map f g) = sum_list (map f h)"
proof -
  have "sum_list (map f g) = sum_mset (image_mset f (mset g))"
    by (metis mset_map sum_mset_sum_list)
  also have "\<dots> = sum_list (map f h)"
    unfolding assms by (metis mset_map sum_mset_sum_list)
  finally show ?thesis .
qed

lemma rounded_mean_exact:
  assumes "ks \<noteq> []" and "sum_list (map abs ks) < 2 ^ 52"
  shows "round0 (mean (map float_of_int ks)) = Some (round_half_even (average ks))"
proof -
  from assms(2) have total: "\<bar>sum_list ks\<bar> < 2 ^ 52" and "sum_list (map abs ks) < 2 ^ 53"
    using sum_list_abs [of ks] by simp_all
  then have "mean (map float_of_int ks) = Some (float64 (average ks))"
    using assms(1) by (intro mean_exact_sum)
  moreover have "round_half_even (float64 (average ks)) = round_half_even (average ks)"
    unfolding average_def using assms(1) by (intro round_mean_exact total) simp
  ultimately show ?thesis
    by (simp add: round0_def)
qed

lemma rounded_mean_of_column:
  assumes "g \<noteq> []" and "sum_list (map (\<lambda>r. \<bar>f r\<bar>) g) < 2 ^ 52"
  shows "round0 (mean (map (float_of_int \<circ> f) g)) = Some (round_half_even (average (map f g)))"
proof -
  have "map abs (map f g) = map (\<lambda>r. \<bar>f r\<bar>) g"
    by simp
  with assms(2) have "sum_list (map abs (map f g)) < 2 ^ 52"
    by (simp only:)
  moreover from assms(1) have "map f g \<noteq> []"
    by simp
  ultimately have "round0 (mean (map float_of_int (map f g)))
      = Some (round_half_even (average (map f g)))"
    by (intro rounded_mean_exact)
  then show ?thesis
    by (simp only: map_map)
qed

lemma info_dict_amount:
  assumes "info_dict kind df kw = Inr s"
  shows "typical_amount_cents s
     = round0 (mean (map (float_of_int \<circ> amount_cents) (get_subdf kind df kw)))"
  using assms by (auto simp: info_dict_def Let_def split: sum.splits)

lemma recurring_keyword_has_lines:
  "kw \<in> set (get_recurring_keywords df) \<Longrightarrow> filter (\<lambda>r. keyword r = kw) (rows df) \<noteq> []"
  by (auto simp: get_recurring_keywords_def set_unique filter_empty_conv)

text \<open>
  Claim C6, as amended.  For every table and every sorting algorithm, each summary of the
  output belongs to one recurring keyword; when the amounts of the lines of the table
  with that keyword add up, in absolute value, to less than \<open>2\<^sup>5\<^sup>2\<close> cents, its
  \<open>typical_amount_cents\<close> is the exact mean of \<open>amount_cents\<close> over all these lines, rounded
  to a nearest integer (at most one half away from the mean, a half going to the even
  neighbour); the value is the same for every arrangement \<open>g\<close> of these lines.
\<close>

theorem typical_amount_rounded_mean:
  assumes "sorting_algorithm kind" and "generate_output kind df = Inr out"
  shows "list_all2 (\<lambda>kw s. \<forall>g. mset g = mset (filter (\<lambda>r. keyword r = kw) (rows df)) \<longrightarrow>
           sum_list (map (\<lambda>r. \<bar>amount_cents r\<bar>) g) < 2 ^ 52 \<longrightarrow>
           typical_amount_cents s = Some (round_half_even (average (map amount_cents g)))
           \<and> \<bar>of_int (round_half_even (average (map amount_cents g)))
                - average (map amount_cents g)\<bar> \<le> 1 / 2)
         (get_recurring_keywords df) out"
proof -
  from assms(2) have "list_all2 (\<lambda>kw s. kw \<in> set (get_recurring_keywords df)
      \<and> info_dict kind df kw = Inr s) (get_recurring_keywords df) out"
    unfolding generate_output_def by (rule map_rows_list_all2) simp
  then show ?thesis
  proof (rule list_all2_mono)
    fix kw s
    assume "kw \<in> set (get_recurring_keywords df) \<and> info_dict kind df kw = Inr s"
    then have kw: "filter (\<lambda>r. keyword r = kw) (rows df) \<noteq> []"
      and s: "info_dict kind df kw = Inr s"
      by (simp_all add: recurring_keyword_has_lines)
    show "\<forall>g. mset g = mset (filter (\<lambda>r. keyword r = kw) (rows df)) \<longrightarrow>
           sum_list (map (\<lambda>r. \<bar>amount_cents r\<bar>) g) < 2 ^ 52 \<longrightarrow>
           typical_amount_cents s = Some (round_half_even (average (map amount_cents g)))
           \<and> \<bar>of_int (round_half_even (average (map amount_cents g)))
                - average (map amount_cents g)\<bar> \<le> 1 / 2"
    proof (intro allI impI conjI)
      fix g assume g: "mset g = mset (filter (\<lambda>r. keyword r = kw) (rows df))"
        and bound: "sum_list (map (\<lambda>r. \<bar>amount_cents r\<bar>) g) < 2 ^ 52"
      show "typical_amount_cents s = Some (round_half_even (average (map amount_cents g)))"
      proof -
        from g kw have "g \<noteq> []" by auto
        have same: "mset (get_subdf kind df kw) = mset g"
          by (simp add: mset_get_subdf [OF assms(1)] g)
        then have avg: "average (map amount_cents (get_subdf kind df kw)) = average (map amount_cents g)"
          by (rule average_mset)
        from same \<open>g \<noteq> []\<close> have ne: "get_subdf kind df kw \<noteq> []"
          by auto
        have "sum_list (map (\<lambda>r. \<bar>amount_cents r\<bar>) (get_subdf kind df kw))
            = sum_list (map (\<lambda>r. \<bar>amount_cents r\<bar>) g)"
          using same by (rule sum_list_mset)
        with bound have small: "sum_list (map (\<lambda>r. \<bar>amount_cents r\<bar>) (get_subdf kind df kw)) < 2 ^ 52"
          by (simp only:)
        have "typical_amount_cents s
            = round0 (mean (map (float_of_int \<circ> amount_cents) (get_subdf kind df kw)))"
          by (rule info_dict_amount [OF s])
        also have "\<dots> = Some (round_half_even (average (map amount_cents (get_subdf kind df kw))))"
          using ne small by (rule rounded_mean_of_column)
        finally show ?thesis
          by (simp only: avg)
      qed
      show "\<bar>of_int (round_half_even (average (map amount_cents g)))
                - average (map amount_cents g)\<bar> \<le> 1 / 2"
        by (rule round_half_even_error)
    qed
  qed
qed

theorem typical_amount_rounded_mean_witness:
  "sorting_algorithm insertion_sort \<and>
   (case annotated insertion_sort monthly of
      Inl e \<Rightarrow> False
    | Inr df \<Rightarrow>
        get_recurring_keywords df = [''spotify debit'']
        \<and> map amount_cents (filter (\<lambda>r. keyword r = ''spotify debit'') (rows df))
            = [999, 999, 1000, 1499]
        \<and> (case generate_output insertion_sort df of
              Inl e \<Rightarrow> False
            | Inr out \<Rightarrow>
                map typical_amount_cents out
                  = [Some (round_half_even (average [999, 999, 1000, 1499]))]
                \<and> map typical_amount_cents out = [Some 1124]))"
proof -
  have "case annotated insertion_sort monthly of Inl e \<Rightarrow> False | Inr df \<Rightarrow> True"
    by code_simp
  then obtain df where df: "annotated insertion_sort monthly = Inr df"
    by (cases "annotated insertion_sort monthly") simp_all
  have "generate_output insertion_sort (projr (annotated insertion_sort monthly))
      = Inr [\<lparr>entity_name = ''spotify'', income_out = False, period_days = Some 30,
              typical_amount_cents = Some 1124\<rparr>]"
    by code_simp
  then have out: "generate_output insertion_sort df
      = Inr [\<lparr>entity_name = ''spotify'', income_out = False, period_days = Some 30,
              typical_amount_cents = Some 1124\<rparr>]"
    by (simp add: df)
  have "get_recurring_keywords (projr (annotated insertion_sort monthly)) = [''spotify debit'']"
    by code_simp
  then have kws: "get_recurring_keywords df = [''spotify debit'']"
    by (simp add: df)
  have "map amount_cents (filter (\<lambda>r. keyword r = ''spotify debit'')
      (rows (projr (annotated insertion_sort monthly)))) = [999, 999, 1000, 1499]"
    by code_simp
  then have amounts: "map amount_cents (filter (\<lambda>r. keyword r = ''spotify debit'') (rows df))
      = [999, 999, 1000, 1499]"
    by (simp add: df)
  have "sum_list (map (\<lambda>r. \<bar>amount_cents r\<bar>) (filter (\<lambda>r. keyword r = ''spotify debit'') (rows df)))
      = sum_list (map abs (map amount_cents (filter (\<lambda>r. keyword r = ''spotify debit'') (rows df))))"
    by (simp add: comp_def)
  then have bound: "sum_list (map (\<lambda>r. \<bar>amount_cents r\<bar>)
      (filter (\<lambda>r. keyword r = ''spotify debit'') (rows df))) < 2 ^ 52"
    unfolding amounts by simp
  from typical_amount_rounded_mean [OF insertion_sort_sorts out]
  have "Some 1124 = Some (round_half_even (average (map amount_cents
      (filter (\<lambda>r. keyword r = ''spotify debit'') (rows df)))))"
    using bound by (simp add: kws)
  then show ?thesis
    by (simp add: df out kws amounts insertion_sort_sorts)
qed

text \<open>
  Claim C6 as stated fails.  Four payments of \<open>2\<^sup>5\<^sup>3 + 1\<close> cents, 30 days apart, are a
  recurring group whose mean amount is \<open>2\<^sup>5\<^sup>3 + 1\<close> cents, an integer; the program reports
  \<open>2\<^sup>5\<^sup>3\<close>, because \<^verbatim>\<open>mean()\<close> adds the amounts as doubles and \<open>2\<^sup>5\<^sup>3 + 1\<close> is none.
\<close>

theorem typical_amount_counterexample:
  "get_recurring_transactions insertion_sort large_amounts
     = Inr [\<lparr>entity_name = ''rent'', income_out = False, period_days = Some 30,
             typical_amount_cents = Some 9007199254740992\<rparr>]
   \<and> map amount_cents large_amounts
     = [9007199254740993, 9007199254740993, 9007199254740993, 9007199254740993]
   \<and> round_half_even (average (map amount_cents large_amounts)) = 9007199254740993"
  by code_simp
section \<open>Properties of the entity name\<close>

lemma split_acc_words:
  assumes "w \<in> set (split_acc acc s)" and "\<forall>c \<in> set acc. \<not> whitespace c"
  shows "w \<noteq> [] \<and> (\<forall>c \<in> set w. \<not> whitespace c)"
  using assms
proof (induction s arbitrary: acc)
  case Nil
  then show ?case by (cases "acc = []") simp_all
next
  case (Cons c cs)
  show ?case
  proof (cases "whitespace c")
    case False
    with Cons.prems have "w \<in> set (split_acc (acc @ [c]) cs)"
      and "\<forall>a \<in> set (acc @ [c]). \<not> whitespace a"
      by simp_all
    then show ?thesis by (rule Cons.IH)
  next
    case True
    show ?thesis
    proof (cases "w = acc \<and> acc \<noteq> []")
      case True
      with Cons.prems(2) show ?thesis by simp
    next
      case False
      with \<open>whitespace c\<close> Cons.prems(1) have "w \<in> set (split_acc [] cs)"
        by (cases "acc = []") auto
      then show ?thesis by (rule Cons.IH) simp
    qed
  qed
qed

lemma split_acc_contained:
  "w \<in> set (split_acc acc s) \<Longrightarrow> \<exists>p q. acc @ s = p @ w @ q"
proof (induction s arbitrary: acc)
  case Nil
  then show ?case by (auto split: if_splits intro: exI [of _ "[]"])
next
  case (Cons c cs)
  show ?case
  proof (cases "whitespace c")
    case False
    with Cons.prems have "w \<in> set (split_acc (acc @ [c]) cs)" by simp
    from Cons.IH [OF this] show ?thesis by simp
  next
    case True
    with Cons.prems consider "w = acc" | "w \<in> set (split_acc [] cs)"
      by (auto split: if_splits)
    then show ?thesis
    proof cases
      case 1
      then show ?thesis by (intro exI [of _ "[]"] exI [of _ "c # cs"]) simp
    next
      case 2
      from Cons.IH [OF this] obtain p q where "cs = p @ w @ q" by auto
      then have "acc @ c # cs = (acc @ c # p) @ w @ q" by simp
      then show ?thesis by blast
    qed
  qed
qed

lemma contains_piece: "contains (p @ w @ q) w"
proof (induction p)
  case Nil
  have p: "prefix w (w @ q)" by simp
  show ?case
  proof (cases "w @ q")
    case Nil
    then show ?thesis by simp
  next
    case (Cons a l)
    with p show ?thesis by simp
  qed
next
  case (Cons a p)
  then show ?case by simp
qed

lemma split_contained: "w \<in> set (split d) \<Longrightarrow> contains d w"
  using split_acc_contained [of w "[]" d] contains_piece by (auto simp: split_def)

lemma common_words_all:
  "\<forall>w \<in> set ws. P w \<Longrightarrow>
   foldl (\<lambda>common_words w. if P w then common_words @ w @ '' '' else common_words) acc ws
     = acc @ concat (map (\<lambda>w. w @ '' '') ws)"
  by (induction ws arbitrary: acc) simp_all

lemma concat_join:
  "ws \<noteq> [] \<Longrightarrow> concat (map (\<lambda>w. w @ '' '') ws) = join ws @ '' ''"
  by (induction ws rule: join.induct) simp_all

lemma join_ends:
  "ws \<noteq> [] \<Longrightarrow> \<forall>w \<in> set ws. w \<noteq> [] \<and> (\<forall>c \<in> set w. \<not> whitespace c)
     \<Longrightarrow> join ws \<noteq> [] \<and> \<not> whitespace (hd (join ws)) \<and> \<not> whitespace (last (join ws))"
  by (induction ws rule: join.induct) (auto simp: hd_append)

lemma strip_join:
  assumes "\<forall>w \<in> set ws. w \<noteq> [] \<and> (\<forall>c \<in> set w. \<not> whitespace c)"
  shows "strip (concat (map (\<lambda>w. w @ '' '') ws)) = join ws"
proof (cases "ws = []")
  case True
  then show ?thesis by (simp add: strip_def)
next
  case False
  from join_ends [OF False assms] obtain c cs where j: "join ws = c # cs" and c: "\<not> whitespace c"
    and l: "\<not> whitespace (last (join ws))"
    by (cases "join ws") auto
  have sp: "whitespace (CHR '' '')" by (simp add: whitespace_def)
  have "dropWhile whitespace (join ws @ '' '') = join ws @ '' ''"
    using c by (simp add: j)
  moreover have "dropWhile whitespace (rev (join ws @ '' '')) = rev (join ws)"
  proof -
    from j obtain b bs where r: "rev (join ws) = b # bs"
      by (cases "rev (join ws)") auto
    then have "b = last (join ws)"
      by (metis hd_rev list.sel(1))
    with l sp show ?thesis by (simp add: r)
  qed
  ultimately show ?thesis
    by (simp add: strip_def concat_join [OF False])
qed

lemma split_acc_word:
  "\<forall>c \<in> set w. \<not> whitespace c \<Longrightarrow> split_acc acc (w @ rest) = split_acc (acc @ w) rest"
  by (induction w arbitrary: acc) simp_all

lemma split_join:
  "\<forall>w \<in> set ws. w \<noteq> [] \<and> (\<forall>c \<in> set w. \<not> whitespace c) \<Longrightarrow> split (join ws) = ws"
proof (induction ws rule: join.induct)
  case 1
  then show ?case by (simp add: split_def)
next
  case (2 w)
  then have "split_acc [] (w @ []) = split_acc ([] @ w) []"
    by (intro split_acc_word) simp
  with 2 show ?case by (simp add: split_def)
next
  case (3 w v ws)
  then have "split_acc [] (w @ '' '' @ join (v # ws)) = split_acc ([] @ w) ('' '' @ join (v # ws))"
    by (intro split_acc_word) simp
  moreover have "whitespace (CHR '' '')"
    by (simp add: whitespace_def)
  moreover from 3 have "split (join (v # ws)) = v # ws" and "w \<noteq> []"
    by simp_all
  ultimately show ?case
    by (simp add: split_def)
qed

text \<open>
  Claim C7.  For every group whose clean descriptions are all one and the same description
  \<open>d\<close> (a recurring group has four lines or more, so that a sequence with exactly one
  description is a sequence that repeats it), the entity name holds every word of \<open>d\<close>, in
  the order of \<open>d\<close>: no word is dropped, each being contained in every description.  The
  name is written as the extractor writes every name, the words separated by single
  spaces and nothing around them, so that it is \<open>d\<close> itself when \<open>d\<close> is written that way,
  and otherwise differs from \<open>d\<close> in whitespace only.
\<close>

theorem single_description_name:
  assumes "data \<noteq> []" and "set data = {d}"
  shows "find_entity_name data = Inr (join (split d))
    \<and> split (join (split d)) = split d
    \<and> (\<forall>ws. (\<forall>w \<in> set ws. w \<noteq> [] \<and> (\<forall>c \<in> set w. \<not> whitespace c)) \<and> d = join ws
          \<longrightarrow> find_entity_name data = Inr d)"
proof -
  from assms have first: "item0 data = Inr d"
    by (cases data) (auto simp: item0_def)
  have all: "\<forall>w \<in> set (split d). list_all (\<lambda>desc. contains desc w) data"
    using assms(2) by (auto simp: list_all_iff split_contained)
  have good: "\<forall>w \<in> set (split d). w \<noteq> [] \<and> (\<forall>c \<in> set w. \<not> whitespace c)"
    using split_acc_words [of _ "[]" d] by (auto simp: split_def)
  have name: "find_entity_name data = Inr (join (split d))"
    by (simp add: find_entity_name_def first Let_def
        common_words_all [OF all] strip_join [OF good])
  moreover have "split (join (split d)) = split d"
    using good by (rule split_join)
  ultimately show ?thesis
    by (auto simp: split_join)
qed

theorem single_description_name_witness:
  "case annotated insertion_sort same_description of
     Inl e \<Rightarrow> False
   | Inr df \<Rightarrow>
       get_recurring_keywords df = [''netflix debit'']
       \<and> map clean_desc (get_subdf insertion_sort df ''netflix debit'')
           = [''netflix com '', ''netflix com '', ''netflix com '', ''netflix com '']
       \<and> split ''netflix com '' = [''netflix'', ''com'']
       \<and> find_entity_name (map clean_desc (get_subdf insertion_sort df ''netflix debit''))
           = Inr ''netflix com''
       \<and> find_entity_name [''netflix com'', ''netflix com''] = Inr ''netflix com''"
proof -
  have "case annotated insertion_sort same_description of Inl e \<Rightarrow> False | Inr df \<Rightarrow> True"
    by code_simp
  then obtain df where df: "annotated insertion_sort same_description = Inr df"
    by (cases "annotated insertion_sort same_description") simp_all
  have "get_recurring_keywords (projr (annotated insertion_sort same_description))
      = [''netflix debit'']"
    by code_simp
  then have kws: "get_recurring_keywords df = [''netflix debit'']"
    by (simp add: df)
  have "map clean_desc (get_subdf insertion_sort
      (projr (annotated insertion_sort same_description)) ''netflix debit'')
      = [''netflix com '', ''netflix com '', ''netflix com '', ''netflix com '']"
    by code_simp
  then have descs: "map clean_desc (get_subdf insertion_sort df ''netflix debit'')
      = [''netflix com '', ''netflix com '', ''netflix com '', ''netflix com '']"
    by (simp add: df)
  have words: "split ''netflix com '' = [''netflix'', ''com'']"
    by code_simp
  have words': "join [''netflix'', ''com''] = ''netflix com''"
    by simp
  have good: "\<forall>w \<in> set [''netflix'', ''com'']. w \<noteq> [] \<and> (\<forall>c \<in> set w. \<not> whitespace c)"
    by (simp add: whitespace_def)
  show ?thesis
    using single_description_name [of "[''netflix com '', ''netflix com '', ''netflix com '',
        ''netflix com '']" "''netflix com ''"]
      single_description_name [of "[''netflix com'', ''netflix com'']" "''netflix com''"]
      good
    by (simp add: df kws descs words words')
qed
end
